theory Spec2Isabelle
  imports Complex_Main "HOL-Library.FSet" "HOL-Library.AList" "HOL-Library.Product_Lexorder"
begin

section \<open>JavaScript numbers\<close>

text \<open>
  Every \<^verbatim>\<open>number\<close> of the TypeScript sources is an IEEE-754 binary64 value. A finite
  value is modelled by the rational it denotes, and every arithmetic operation rounds its
  exact result to the nearest binary64 value (ties to even), as the hardware does. The
  two zeros are identified: no function modelled here divides by a negative zero or
  prints one.
\<close>

datatype jsnum = Fin rat | PInf | NInf | NaN

text \<open>\<open>log2_up q\<close> is the \<open>k\<close> with \<open>2^k \<le> q < 2^(k+1)\<close> for \<open>q \<ge> 1\<close>;
  \<open>log2_dn q\<close> is the \<open>k\<close> with \<open>2^(-k) \<le> q < 2^(1-k)\<close> for \<open>0 < q < 1\<close>.\<close>

function log2_up :: "rat \<Rightarrow> nat" where
  "log2_up q = (if q < 2 then 0 else Suc (log2_up (q / 2)))"
  by pat_completeness auto
termination
proof (relation "measure (\<lambda>q. nat \<lfloor>q\<rfloor>)")
  show "wf (measure (\<lambda>q::rat. nat \<lfloor>q\<rfloor>))" by simp
next
  fix q :: rat assume "\<not> q < 2"
  then have "2 \<le> q" by simp
  then have "\<lfloor>q / 2\<rfloor> < \<lfloor>q\<rfloor>" by (simp add: floor_less_iff) linarith
  moreover have "0 < \<lfloor>q\<rfloor>" using \<open>2 \<le> q\<close> by (simp add: less_floor_iff)
  ultimately show "(q / 2, q) \<in> measure (\<lambda>q. nat \<lfloor>q\<rfloor>)" by simp
qed

function log2_dn :: "rat \<Rightarrow> nat" where
  "log2_dn q = (if q \<le> 0 \<or> 1 \<le> q then 0 else Suc (log2_dn (q * 2)))"
  by pat_completeness auto
termination
proof (relation "measure (\<lambda>q. nat \<lceil>1 / q\<rceil>)")
  show "wf (measure (\<lambda>q::rat. nat \<lceil>1 / q\<rceil>))" by simp
next
  fix q :: rat assume "\<not> (q \<le> 0 \<or> 1 \<le> q)"
  then have q: "0 < q" "q < 1" by simp_all
  then have "1 < 1 / q" by simp
  then have c: "2 \<le> \<lceil>1 / q\<rceil>" by (simp add: le_ceiling_iff)
  have "1 / (q * 2) \<le> of_int \<lceil>1 / q\<rceil> / 2" by (simp add: le_of_int_ceiling divide_right_mono)
  also have "\<dots> \<le> of_int (\<lceil>1 / q\<rceil> - 1)" using c by simp
  finally have "\<lceil>1 / (q * 2)\<rceil> \<le> \<lceil>1 / q\<rceil> - 1" unfolding ceiling_le_iff by simp
  then have "nat \<lceil>1 / (q * 2)\<rceil> < nat \<lceil>1 / q\<rceil>" using c by linarith
  then show "(q * 2, q) \<in> measure (\<lambda>q. nat \<lceil>1 / q\<rceil>)" by simp
qed

declare log2_up.simps [simp del] log2_dn.simps [simp del]

definition ilog2 :: "rat \<Rightarrow> int" where
  "ilog2 q = (if 1 \<le> q then int (log2_up q) else - int (log2_dn q))"

text \<open>Rounding to the nearest integer, ties to the even one.\<close>

definition rne :: "rat \<Rightarrow> int" where
  "rne t = (let f = \<lfloor>t\<rfloor>; d = t - of_int f in
     if d < 1 / 2 then f else if 1 / 2 < d then f + 1 else if even f then f else f + 1)"

text \<open>The binary exponent of a value (clamped at the subnormal range) and the spacing
  of the binary64 grid there: 53 significant bits.\<close>

definition expo :: "rat \<Rightarrow> int" where
  "expo q = max (ilog2 \<bar>q\<bar>) (- 1022)"

definition ulp :: "rat \<Rightarrow> rat" where
  "ulp q = 2 powi (expo q - 52)"

definition round64 :: "rat \<Rightarrow> rat" where
  "round64 q = (if q = 0 then 0 else of_int (rne (q / ulp q)) * ulp q)"

text \<open>The binary64 result of an operation whose exact result is \<open>r\<close>.\<close>

definition to_double :: "rat \<Rightarrow> jsnum" where
  "to_double r = (let v = round64 r in
     if 2 ^ 1024 \<le> v then PInf else if v \<le> - (2 ^ 1024) then NInf else Fin v)"

definition js_of_nat :: "nat \<Rightarrow> jsnum" where
  "js_of_nat n = to_double (of_nat n)"

fun js_neg :: "jsnum \<Rightarrow> jsnum" where
  "js_neg (Fin a) = Fin (- a)"
| "js_neg PInf = NInf"
| "js_neg NInf = PInf"
| "js_neg NaN = NaN"

fun js_add :: "jsnum \<Rightarrow> jsnum \<Rightarrow> jsnum" where
  "js_add (Fin a) (Fin b) = to_double (a + b)"
| "js_add NaN _ = NaN"
| "js_add _ NaN = NaN"
| "js_add PInf NInf = NaN"
| "js_add NInf PInf = NaN"
| "js_add PInf _ = PInf"
| "js_add _ PInf = PInf"
| "js_add NInf _ = NInf"
| "js_add _ NInf = NInf"

definition js_sub :: "jsnum \<Rightarrow> jsnum \<Rightarrow> jsnum" where
  "js_sub a b = js_add a (js_neg b)"

fun js_mul :: "jsnum \<Rightarrow> jsnum \<Rightarrow> jsnum" where
  "js_mul (Fin a) (Fin b) = to_double (a * b)"
| "js_mul NaN _ = NaN"
| "js_mul _ NaN = NaN"
| "js_mul (Fin a) PInf = (if a = 0 then NaN else if 0 < a then PInf else NInf)"
| "js_mul (Fin a) NInf = (if a = 0 then NaN else if 0 < a then NInf else PInf)"
| "js_mul PInf (Fin b) = (if b = 0 then NaN else if 0 < b then PInf else NInf)"
| "js_mul NInf (Fin b) = (if b = 0 then NaN else if 0 < b then NInf else PInf)"
| "js_mul PInf PInf = PInf"
| "js_mul PInf NInf = NInf"
| "js_mul NInf PInf = NInf"
| "js_mul NInf NInf = PInf"

fun js_div :: "jsnum \<Rightarrow> jsnum \<Rightarrow> jsnum" where
  "js_div (Fin a) (Fin b) =
     (if b = 0 then (if a = 0 then NaN else if 0 < a then PInf else NInf)
      else to_double (a / b))"
| "js_div NaN _ = NaN"
| "js_div _ NaN = NaN"
| "js_div (Fin a) _ = Fin 0"
| "js_div PInf (Fin b) = (if 0 \<le> b then PInf else NInf)"
| "js_div NInf (Fin b) = (if 0 \<le> b then NInf else PInf)"
| "js_div _ _ = NaN"

text \<open>\<^verbatim>\<open>Math.ceil\<close>, \<^verbatim>\<open>Math.floor\<close> and \<^verbatim>\<open>Math.round\<close> (which rounds halves up) are
  exact: their result is an integer of binary64.\<close>

fun js_ceil :: "jsnum \<Rightarrow> jsnum" where
  "js_ceil (Fin a) = Fin (of_int \<lceil>a\<rceil>)"
| "js_ceil v = v"

fun js_floor :: "jsnum \<Rightarrow> jsnum" where
  "js_floor (Fin a) = Fin (of_int \<lfloor>a\<rfloor>)"
| "js_floor v = v"

fun js_round :: "jsnum \<Rightarrow> jsnum" where
  "js_round (Fin a) = Fin (of_int \<lfloor>a + 1 / 2\<rfloor>)"
| "js_round v = v"

text \<open>Comparisons: every comparison with \<^verbatim>\<open>NaN\<close> is false.\<close>

fun js_lt :: "jsnum \<Rightarrow> jsnum \<Rightarrow> bool" where
  "js_lt (Fin a) (Fin b) = (a < b)"
| "js_lt NaN _ = False"
| "js_lt _ NaN = False"
| "js_lt _ NInf = False"
| "js_lt NInf _ = True"
| "js_lt PInf _ = False"
| "js_lt _ PInf = True"

fun js_eq :: "jsnum \<Rightarrow> jsnum \<Rightarrow> bool" where
  "js_eq NaN _ = False"
| "js_eq _ NaN = False"
| "js_eq a b = (a = b)"

definition js_le :: "jsnum \<Rightarrow> jsnum \<Rightarrow> bool" where
  "js_le a b = (js_lt a b \<or> js_eq a b)"

definition js_gt :: "jsnum \<Rightarrow> jsnum \<Rightarrow> bool" where
  "js_gt a b = js_lt b a"

definition js_ge :: "jsnum \<Rightarrow> jsnum \<Rightarrow> bool" where
  "js_ge a b = js_le b a"

text \<open>\<^verbatim>\<open>Math.min\<close> and \<^verbatim>\<open>Math.max\<close> of two arguments.\<close>

definition js_min :: "jsnum \<Rightarrow> jsnum \<Rightarrow> jsnum" where
  "js_min a b = (if a = NaN \<or> b = NaN then NaN else if js_lt b a then b else a)"

definition js_max :: "jsnum \<Rightarrow> jsnum \<Rightarrow> jsnum" where
  "js_max a b = (if a = NaN \<or> b = NaN then NaN else if js_lt a b then b else a)"

datatype js_error = TypeError | Error

section \<open>The 996 index (core/calculator.ts)\<close>

record TimeCount =
  time :: string
  count :: jsnum

record WorkTimeData =
  workHourPl :: "TimeCount list"
  workWeekPl :: "TimeCount list"
  hourData :: "TimeCount list"

text \<open>The seven messages of \<^verbatim>\<open>generateDescription\<close>, in the order of its tests.\<close>

datatype description =
  VeryHealthy | Healthy | Acceptable | Poor | VeryPoor | Severe | Extreme

record Result996 =
  index996 :: jsnum
  index996Str :: description
  overTimeRadio :: jsnum

definition generateDescription :: "jsnum \<Rightarrow> description" where
  "generateDescription idx =
     (if js_le idx (Fin 0) then VeryHealthy
      else if js_le idx (Fin 21) then Healthy
      else if js_le idx (Fin 48) then Acceptable
      else if js_le idx (Fin 63) then Poor
      else if js_le idx (Fin 100) then VeryPoor
      else if js_le idx (Fin 130) then Severe
      else Extreme)"

definition getUn996Radio :: "TimeCount list \<Rightarrow> jsnum \<Rightarrow> jsnum" where
  "getUn996Radio hourList totalCount =
     (let averageCommit = js_div totalCount (js_of_nat (length hourList));
          mockTotalCount = js_mul averageCommit (Fin 9);
          radio = js_sub (js_ceil (js_mul (js_div totalCount mockTotalCount) (Fin 100))) (Fin 100)
      in radio)"

text \<open>Reading \<^verbatim>\<open>workHourPl[0].count\<close> of an array with no such element throws a
  \<^verbatim>\<open>TypeError\<close>.\<close>

definition primaryRadio :: "jsnum \<Rightarrow> jsnum \<Rightarrow> jsnum \<Rightarrow> jsnum \<Rightarrow> jsnum" where
  "primaryRadio y x m n =
     (let overTimeAmendCount = js_round (js_add x (js_div (js_mul y n) (js_add m n)));
          totalCount = js_add y x
      in js_ceil (js_mul (js_div overTimeAmendCount totalCount) (Fin 100)))"

definition calculate996Index :: "WorkTimeData \<Rightarrow> js_error + Result996" where
  "calculate996Index data =
     (if length (workHourPl data) < 2 \<or> length (workWeekPl data) < 2 then Inl TypeError
      else
        let y = count (workHourPl data ! 0);
            x = count (workHourPl data ! 1);
            m = count (workWeekPl data ! 0);
            n = count (workWeekPl data ! 1);
            totalCount = js_add y x;
            radio0 = primaryRadio y x m n;
            radio =
              (if js_eq radio0 (Fin 0) \<and> length (hourData data) < 9
               then getUn996Radio (hourData data) totalCount
               else radio0);
            idx = js_mul radio (Fin 3)
        in Inr \<lparr>index996 = idx, index996Str = generateDescription idx,
                overTimeRadio = radio\<rparr>)"

text \<open>The input \<^verbatim>\<open>GitParser.calculate996Index\<close> builds: \<open>y\<close> commits in normal hours,
  \<open>x\<close> in overtime hours, \<open>m\<close> on workdays, \<open>n\<close> at weekends.\<close>

definition workTimeData :: "nat \<Rightarrow> nat \<Rightarrow> nat \<Rightarrow> nat \<Rightarrow> TimeCount list \<Rightarrow> WorkTimeData" where
  "workTimeData y x m n hourList =
     \<lparr>workHourPl = [\<lparr>time = ''work'', count = js_of_nat y\<rparr>,
                    \<lparr>time = ''overtime'', count = js_of_nat x\<rparr>],
      workWeekPl = [\<lparr>time = ''workday'', count = js_of_nat m\<rparr>,
                    \<lparr>time = ''weekend'', count = js_of_nat n\<rparr>],
      hourData = hourList\<rparr>"

text \<open>The formula of the specification, in exact arithmetic:
  \<open>correction = round(x + y\<cdot>n/(m+n))\<close>, \<open>ratio = ceil(correction / (x+y) \<cdot> 100)\<close>.\<close>

definition spec_ratio :: "nat \<Rightarrow> nat \<Rightarrow> nat \<Rightarrow> nat \<Rightarrow> int" where
  "spec_ratio y x m n =
     \<lceil>of_int \<lfloor>of_nat x + of_nat y * of_nat n / of_nat (m + n) + (1 / 2 :: rat)\<rfloor>
        / of_nat (x + y) * (100 :: rat)\<rceil>"

text \<open>Two values the proofs about the index name. \<open>correction y x m n\<close> is the corrected
  overtime count in exact arithmetic, \<open>round(x + y\<cdot>n/(m+n))\<close> with halves rounded up.
  \<open>percentCeil c t\<close> is the percentage \<^verbatim>\<open>Math.ceil((c / t) * 100)\<close> as binary64 computes
  it: the quotient is rounded, and its product with 100 is rounded again.\<close>

definition correction :: "nat \<Rightarrow> nat \<Rightarrow> nat \<Rightarrow> nat \<Rightarrow> int" where
  "correction y x m n = int x + \<lfloor>of_nat (y * n) / of_nat (m + n) + (1 / 2 :: rat)\<rfloor>"

definition percentCeil :: "int \<Rightarrow> nat \<Rightarrow> int" where
  "percentCeil c t = \<lceil>round64 (round64 (of_int c / of_nat t) * 100)\<rceil>"

text \<open>The number of distinct time buckets of \<^verbatim>\<open>hourData\<close> that have any commit.\<close>

definition activeBuckets :: "TimeCount list \<Rightarrow> nat" where
  "activeBuckets hourList =
     length (remdups (map time (filter (\<lambda>item. js_lt (Fin 0) (count item)) hourList)))"

text \<open>
  \<^verbatim>\<open>TimeCollector.fillMissingHalfHours\<close> (git/collectors/time-collector.ts), the last step
  of \<^verbatim>\<open>getCommitsByHour\<close>, whose result is the \<^verbatim>\<open>hourData\<close> of the index: the 48 half hours
  of a day in order, each with the count the data has for it, or 0.
  \<open>padStart2 i\<close> is \<^verbatim>\<open>i.toString().padStart(2, '0')\<close> for the hours 0 to 23 of the loop.
\<close>

definition digitChar :: "nat \<Rightarrow> char" where
  "digitChar n = ''0123456789'' ! n"

definition padStart2 :: "nat \<Rightarrow> string" where
  "padStart2 i =
     (if i < 10 then [CHR ''0'', digitChar i] else [digitChar (i div 10), digitChar (i mod 10)])"

definition fillMissingHalfHours :: "TimeCount list \<Rightarrow> TimeCount list" where
  "fillMissingHalfHours data =
     concat (map (\<lambda>i. map (\<lambda>suffix.
                let timeKey = padStart2 i @ '':'' @ suffix
                in \<lparr>time = timeKey,
                    count = (case find (\<lambda>item. time item = timeKey) data of
                               Some existing \<Rightarrow> count existing
                             | None \<Rightarrow> Fin 0)\<rparr>)
              [''00'', ''30''])
       [0 ..< 24])"

text \<open>The series of a repository whose ten commits were all made between 9:00 and 9:29.\<close>

definition quietMorning :: "TimeCount list" where
  "quietMorning = fillMissingHalfHours [\<lparr>time = ''09:00'', count = Fin 10\<rparr>]"

section \<open>Calendar dates and the daily records (types/git-types.ts)\<close>

text \<open>
  A date key is the text \<^verbatim>\<open>YYYY-MM-DD\<close> that \<^verbatim>\<open>parseLocalTimestamp\<close> cuts out of a
  timestamp of git. It is modelled by its three numbers; on keys of this shape the order
  of \<^verbatim>\<open>localeCompare\<close> is the order of the triples.
\<close>

type_synonym dateKey = "int \<times> nat \<times> nat"

record Dated =
  date :: dateKey

record DailyCommitHours = Dated +
  hours :: "nat fset"

record DailyLatestCommit = Dated +
  minutesFromMidnight :: nat

type_synonym DailyFirstCommit = DailyLatestCommit

definition isLeapYear :: "int \<Rightarrow> bool" where
  "isLeapYear y = (y mod 4 = 0 \<and> (y mod 100 \<noteq> 0 \<or> y mod 400 = 0))"

definition daysInMonth :: "int \<Rightarrow> nat \<Rightarrow> nat" where
  "daysInMonth y m =
     (if m = 2 then (if isLeapYear y then 29 else 28)
      else if m = 4 \<or> m = 6 \<or> m = 9 \<or> m = 11 then 30 else 31)"

text \<open>The dates of the calendar. Git prints no other, so they are the only keys the
  collectors hold.\<close>

definition validDate :: "dateKey \<Rightarrow> bool" where
  "validDate k = (case k of (y, m, d) \<Rightarrow> 1 \<le> m \<and> m \<le> 12 \<and> 1 \<le> d \<and> d \<le> daysInMonth y m)"

text \<open>
  The \<^verbatim>\<open>Date\<close> of JavaScript counts days from the first of January 1970 in the proleptic
  Gregorian calendar. \<open>makeDay\<close> is that number (\<^verbatim>\<open>MakeDay\<close> of ECMAScript) for a date,
  computed with the year begun in March: \<open>leapDays y\<close> leap days up to the year \<open>y\<close>, and
  \<open>daysBeforeMonth m'\<close> days from the first of March to the first of the month \<open>m'\<close>
  months later. \<open>weekDay\<close> is \<^verbatim>\<open>WeekDay\<close> of ECMAScript on
  day numbers: 0 for Sunday to 6 for Saturday, the first of January 1970 being a Thursday.
\<close>

definition leapDays :: "int \<Rightarrow> int" where
  "leapDays y = y div 4 - y div 100 + y div 400"

definition daysBeforeMonth :: "int \<Rightarrow> int" where
  "daysBeforeMonth m' = (153 * m' + 2) div 5"

definition makeDay :: "dateKey \<Rightarrow> int" where
  "makeDay k =
     (case k of (y, m, d) \<Rightarrow>
        let y' = (if m \<le> 2 then y - 1 else y);
            m' = (if m \<le> 2 then int m + 9 else int m - 3)
        in 365 * y' + leapDays y' + daysBeforeMonth m' + int d - 1 - 719468)"

definition weekDay :: "int \<Rightarrow> int" where
  "weekDay day = (day + 4) mod 7"

text \<open>The day of the week of a date, as the calendar has it.\<close>

definition calendarWeekDay :: "dateKey \<Rightarrow> nat" where
  "calendarWeekDay d = nat (weekDay (makeDay d))"

text \<open>
  \<^verbatim>\<open>new Date(date).getDay()\<close> for a date key. A text of the form \<^verbatim>\<open>YYYY-MM-DD\<close> is read as
  the midnight that begins the date in UTC, and \<^verbatim>\<open>getDay\<close> gives the day of the week the
  local clock shows at that instant. The zone of the machine comes from outside the
  sources: \<open>utcOffset d\<close> is the number of minutes its clock is ahead of UTC at that
  instant (negative west of Greenwich). Times are counted in minutes.
\<close>

definition getDay :: "(dateKey \<Rightarrow> int) \<Rightarrow> dateKey \<Rightarrow> nat" where
  "getDay utcOffset d = nat (weekDay ((makeDay d * 1440 + utcOffset d) div 1440))"

text \<open>\<^verbatim>\<open>MakeDay\<close> with the day before the first of a month: the calendar day before a
  date.\<close>

definition previousDay :: "dateKey \<Rightarrow> dateKey" where
  "previousDay k =
     (case k of (y, m, d) \<Rightarrow>
        if 1 < d then (y, m, d - 1)
        else if 1 < m then (y, m - 1, daysInMonth y (m - 1))
        else (y - 1, 12, 31))"

text \<open>
  \<^verbatim>\<open>new Date(`${dateKey}T00:00:00`)\<close>, \<^verbatim>\<open>date.setDate(date.getDate() - 1)\<close> and
  \<^verbatim>\<open>formatDateKey(date)\<close>. A text with a time and no zone is read as local time, and
  \<^verbatim>\<open>getDate\<close>, \<^verbatim>\<open>setDate\<close> and the getters of \<^verbatim>\<open>formatDateKey\<close> work on the local clock. The
  zone comes from outside the sources: \<open>wall (d, t)\<close> is the date and the minute of the day
  that the local clock shows at the instant the local time \<open>t\<close> minutes after midnight of
  \<open>d\<close> denotes. Where the clock shows that time it is \<open>(d, t)\<close> itself; a time the clock
  skips is read with the offset before the jump, so the clock shows it moved forward by
  the length of the jump.
  \<^verbatim>\<open>setDate\<close> keeps the time of day and steps the date back by the calendar.
\<close>

definition dayBefore :: "(dateKey \<times> nat \<Rightarrow> dateKey \<times> nat) \<Rightarrow> dateKey \<Rightarrow> dateKey" where
  "dayBefore wall k =
     (case wall (k, 0) of (d0, t0) \<Rightarrow> fst (wall (previousDay d0, t0)))"

text \<open>A zone whose clock skips nothing, and Pacific/Apia, where the clock went from the
  end of the 29th of December 2011 to the start of the 31st: there was no 30th.\<close>

definition plainZone :: "dateKey \<times> nat \<Rightarrow> dateKey \<times> nat" where
  "plainZone w = w"

definition apia :: "dateKey \<times> nat \<Rightarrow> dateKey \<times> nat" where
  "apia w = (case w of (d, t) \<Rightarrow> if d = (2011, 12, 30) then ((2011, 12, 31), t) else (d, t))"

section \<open>Working hours (core/work-time-analyzer.ts)\<close>

datatype DetectionMethod = QuantileWindow | DefaultMethod | Manual

datatype EndDetectionMethod = StandardShift | BackwardThreshold | DefaultEnd | ManualEnd

text \<open>An hour range \<^verbatim>\<open>{startHour, endHour}\<close> is the pair of its two hours.\<close>

type_synonym hourRange = "jsnum \<times> jsnum"

record WorkTimeDetectionResult =
  startHour :: jsnum
  endHour :: jsnum
  isReliable :: bool
  sampleCount :: int
  detectionMethod :: DetectionMethod
  confidence :: jsnum
  startHourRange :: "hourRange option"
  endHourRange :: "hourRange option"
  endDetectionMethod :: "EndDetectionMethod option"

definition STANDARD_WORK_HOURS :: jsnum where
  "STANDARD_WORK_HOURS = Fin 9"

definition MIN_VALID_MINUTES :: jsnum where
  "MIN_VALID_MINUTES = Fin 300"

definition MAX_VALID_MINUTES :: jsnum where
  "MAX_VALID_MINUTES = Fin 720"

definition isWorkingHour :: "jsnum \<Rightarrow> WorkTimeDetectionResult \<Rightarrow> bool" where
  "isWorkingHour hour detection =
     (let hourStartMinutes = js_mul hour (Fin 60);
          startMinutes = js_mul (startHour detection) (Fin 60);
          cappedEndHour = js_min (endHour detection) (js_add (startHour detection) STANDARD_WORK_HOURS);
          endMinutes = js_max startMinutes (js_mul cappedEndHour (Fin 60))
      in js_ge hourStartMinutes startMinutes \<and> js_lt hourStartMinutes endMinutes)"

text \<open>The array index of JavaScript: \<^verbatim>\<open>xs[i]\<close> is \<^verbatim>\<open>undefined\<close> unless \<open>i\<close> is a whole
  number from 0 to \<^verbatim>\<open>xs.length - 1\<close>.\<close>

definition js_index :: "'a list \<Rightarrow> jsnum \<Rightarrow> 'a option" where
  "js_index xs i =
     (case i of
        Fin q \<Rightarrow> (if 0 \<le> q \<and> of_int \<lfloor>q\<rfloor> = q \<and> nat \<lfloor>q\<rfloor> < length xs
                  then Some (xs ! nat \<lfloor>q\<rfloor>) else None)
      | _ \<Rightarrow> None)"

text \<open>\<open>getUTCDay\<close> is \<^verbatim>\<open>new Date(date + 'T00:00:00Z').getUTCDay()\<close>, 0 for Sunday to 6 for
  Saturday. The minutes of a day are whole numbers.\<close>

definition filterValidDailyCommits ::
  "(dateKey \<Rightarrow> nat) \<Rightarrow> DailyFirstCommit list \<Rightarrow> DailyFirstCommit list" where
  "filterValidDailyCommits getUTCDay dailyFirstCommits =
     filter (\<lambda>item.
        if js_lt (js_of_nat (minutesFromMidnight item)) MIN_VALID_MINUTES
           \<or> js_gt (js_of_nat (minutesFromMidnight item)) MAX_VALID_MINUTES
        then False
        else (let weekDay = getUTCDay (date item) in 1 \<le> weekDay \<and> weekDay \<le> 5))
       dailyFirstCommits"

definition calculateQuantile :: "nat list \<Rightarrow> jsnum \<Rightarrow> jsnum \<Rightarrow> jsnum" where
  "calculateQuantile samples quantile fallback =
     (if length samples = 0 then fallback
      else
        let sorted = sort samples;
            index = js_floor (js_mul (js_sub (js_of_nat (length sorted)) (Fin 1)) quantile)
        in case js_index sorted index of
             None \<Rightarrow> fallback
           | Some v \<Rightarrow> js_of_nat v)"

definition roundDownToHalfHour :: "jsnum \<Rightarrow> jsnum" where
  "roundDownToHalfHour minutes =
     (let halfHourBlock = js_floor (js_div minutes (Fin 30)) in js_mul halfHourBlock (Fin 30))"

definition buildStartHourRange :: "jsnum \<Rightarrow> jsnum \<Rightarrow> hourRange" where
  "buildStartHourRange lowerMinutes upperMinutes =
     (let boundedLower = js_max MIN_VALID_MINUTES (js_min lowerMinutes MAX_VALID_MINUTES);
          boundedUpper = js_max MIN_VALID_MINUTES (js_min upperMinutes MAX_VALID_MINUTES);
          sanitizedLower = roundDownToHalfHour boundedLower;
          sanitizedUpper = roundDownToHalfHour (js_max boundedUpper (js_add sanitizedLower (Fin 30)));
          start = js_min sanitizedLower sanitizedUpper;
          end0 = js_max sanitizedUpper (js_add start (Fin 30));
          end1 = js_min (js_min end0 (js_add start (Fin 60))) MAX_VALID_MINUTES
      in (js_div start (Fin 60), js_div end1 (Fin 60)))"

text \<open>The first half of \<^verbatim>\<open>detectWorkingHours\<close>: the start range, the detection method and
  the number of samples. (The second half calls \<^verbatim>\<open>detectEndHourWindow\<close> of
  \<^verbatim>\<open>end-hour-detector.ts\<close>, which is not among the sources; the start hour does not depend
  on it.)\<close>

definition detectStartRange ::
  "(dateKey \<Rightarrow> nat) \<Rightarrow> DailyFirstCommit list \<Rightarrow> hourRange \<times> DetectionMethod \<times> nat" where
  "detectStartRange getUTCDay dailyFirstCommits =
     (let filteredDailyCommits = filterValidDailyCommits getUTCDay dailyFirstCommits;
          sampleCount = length filteredDailyCommits;
          minutesSamples = map minutesFromMidnight filteredDailyCommits;
          defaultMinutes = js_mul (Fin 9) (Fin 60)
      in if 0 < length minutesSamples then
           let lowerQuantile = calculateQuantile minutesSamples (to_double (1 / 10)) defaultMinutes;
               upperQuantile = calculateQuantile minutesSamples (to_double (2 / 10))
                                 (js_add lowerQuantile (Fin 60))
           in (buildStartHourRange lowerQuantile upperQuantile, QuantileWindow, sampleCount)
         else (buildStartHourRange defaultMinutes (js_add defaultMinutes (Fin 30)),
               DefaultMethod, sampleCount))"

text \<open>\<^verbatim>\<open>calculatePercentile\<close> of \<^verbatim>\<open>utils/statistics.ts\<close>, the percentile with linear
  interpolation between order statistics that the team statistics use.\<close>

definition calculatePercentile :: "nat list \<Rightarrow> jsnum \<Rightarrow> jsnum" where
  "calculatePercentile sortedValues percentile =
     (if length sortedValues = 0 then Fin 0
      else
        let index = js_mul (js_div percentile (Fin 100)) (js_sub (js_of_nat (length sortedValues)) (Fin 1));
            lower = js_floor index;
            upper = js_ceil index;
            weight = js_sub index lower
        in case (js_index sortedValues lower, js_index sortedValues upper) of
             (Some lo, Some up) \<Rightarrow>
               if js_eq lower upper then js_of_nat lo
               else js_add (js_mul (js_of_nat lo) (js_sub (Fin 1) weight)) (js_mul (js_of_nat up) weight)
           | _ \<Rightarrow> NaN)"

text \<open>The result of the manual range \<^verbatim>\<open>9.5-22\<close>: a day of twelve and a half hours.\<close>

definition lateShift :: WorkTimeDetectionResult where
  "lateShift =
     \<lparr>startHour = Fin (19 / 2), endHour = Fin 22, isReliable = True, sampleCount = - 1,
      detectionMethod = Manual, confidence = Fin 100,
      startHourRange = Some (Fin (19 / 2), Fin (21 / 2)),
      endHourRange = Some (Fin 21, Fin 22),
      endDetectionMethod = Some ManualEnd\<rparr>"

section \<open>The manual working hours (git/git-parser.ts)\<close>

text \<open>
  The text of \<^verbatim>\<open>--hours\<close> is any string of JavaScript: a list of UTF-16 code units.
  \<open>units\<close> gives the code units of a text written in ASCII.
\<close>

type_synonym jsString = "nat list"

definition units :: "string \<Rightarrow> jsString" where
  "units s = map of_char s"

text \<open>\<^verbatim>\<open>String.prototype.split\<close> with a separator of one code unit.\<close>

fun split_on :: "nat \<Rightarrow> jsString \<Rightarrow> jsString list" where
  "split_on c [] = [[]]"
| "split_on c (x # xs) =
     (if x = c then [] # split_on c xs
      else (case split_on c xs of
              [] \<Rightarrow> [[x]]
            | p # ps \<Rightarrow> (x # p) # ps))"

text \<open>The code units of the hyphen, the plus sign, the point and the letters \<^verbatim>\<open>e\<close> and
  \<^verbatim>\<open>E\<close>.\<close>

definition hyphen :: nat where "hyphen = 45"

definition plusSign :: nat where "plusSign = 43"

definition point :: nat where "point = 46"

definition smallE :: nat where "smallE = 101"

definition capitalE :: nat where "capitalE = 69"

definition isDigit :: "nat \<Rightarrow> bool" where
  "isDigit c = (48 \<le> c \<and> c \<le> 57)"

text \<open>
  The white space \<^verbatim>\<open>parseFloat\<close> skips, \<^verbatim>\<open>WhiteSpace\<close> and \<^verbatim>\<open>LineTerminator\<close> of
  ECMAScript: tab, line feed, vertical tab, form feed, carriage return, space, the
  no-break space U+00A0, U+1680, U+2000 to U+200A, the line and paragraph separators
  U+2028 and U+2029, U+202F, U+205F, U+3000 and the byte order mark U+FEFF.
\<close>

definition isWhiteSpace :: "nat \<Rightarrow> bool" where
  "isWhiteSpace c =
     (c \<in> {9, 10, 11, 12, 13, 32, 160, 5760, 8232, 8233, 8239, 8287, 12288, 65279}
      \<or> (8192 \<le> c \<and> c \<le> 8202))"

definition digitsValue :: "jsString \<Rightarrow> nat" where
  "digitsValue ds = foldl (\<lambda>a c. 10 * a + (c - 48)) 0 ds"

text \<open>The exponent part of a decimal literal, if the text starts with one: \<^verbatim>\<open>e\<close> or \<^verbatim>\<open>E\<close>,
  an optional sign, and at least one digit.\<close>

definition exponentPart :: "jsString \<Rightarrow> int" where
  "exponentPart s =
     (case s of
        [] \<Rightarrow> 0
      | e # r \<Rightarrow>
          if e = smallE \<or> e = capitalE then
            (case r of
               [] \<Rightarrow> 0
             | sg # r' \<Rightarrow>
                 if sg = hyphen then
                   (if takeWhile isDigit r' = [] then 0 else - int (digitsValue (takeWhile isDigit r')))
                 else if sg = plusSign then int (digitsValue (takeWhile isDigit r'))
                 else int (digitsValue (takeWhile isDigit r)))
          else 0)"

text \<open>The longest prefix that is an unsigned decimal literal, as the number it denotes
  (\<open>None\<close> when no prefix is one): digits, an optional point with digits, an optional
  exponent.\<close>

definition unsignedDecimal :: "jsString \<Rightarrow> jsnum option" where
  "unsignedDecimal s =
     (if take 8 s = units ''Infinity'' then Some PInf
      else
        let ip = takeWhile isDigit s;
            r1 = dropWhile isDigit s;
            fp = (case r1 of [] \<Rightarrow> [] | c # r \<Rightarrow> if c = point then takeWhile isDigit r else []);
            r2 = (case r1 of [] \<Rightarrow> [] | c # r \<Rightarrow> if c = point then dropWhile isDigit r else r1)
        in if ip = [] \<and> fp = [] then None
           else Some (to_double
                  ((of_nat (digitsValue ip) + of_nat (digitsValue fp) / 10 ^ length fp)
                     * 10 powi exponentPart r2)))"

text \<open>\<^verbatim>\<open>parseFloat\<close>: leading white space is skipped, what follows the literal is
  ignored, and a text that starts with no literal gives \<^verbatim>\<open>NaN\<close>.\<close>

definition parseFloat :: "jsString \<Rightarrow> jsnum" where
  "parseFloat s =
     (let t = dropWhile isWhiteSpace s in
      case t of
        [] \<Rightarrow> NaN
      | c # r \<Rightarrow>
          if c = hyphen then (case unsignedDecimal r of None \<Rightarrow> NaN | Some v \<Rightarrow> js_neg v)
          else if c = plusSign then (case unsignedDecimal r of None \<Rightarrow> NaN | Some v \<Rightarrow> v)
          else (case unsignedDecimal t of None \<Rightarrow> NaN | Some v \<Rightarrow> v))"

definition parseCustomWorkHours :: "jsString \<Rightarrow> js_error + WorkTimeDetectionResult" where
  "parseCustomWorkHours customWorkHours =
     (let parts = split_on hyphen customWorkHours in
      if length parts \<noteq> 2 then Inl Error
      else
        let startH = parseFloat (parts ! 0);
            endH = parseFloat (parts ! 1)
        in if startH = NaN \<or> endH = NaN \<or> js_lt startH (Fin 0) \<or> js_gt startH (Fin 23)
              \<or> js_lt endH (Fin 0) \<or> js_gt endH (Fin 24)
           then Inl Error
           else if js_ge startH endH then Inl Error
           else Inr \<lparr>startHour = startH, endHour = endH, isReliable = True, sampleCount = - 1,
                     detectionMethod = Manual, confidence = Fin 100,
                     startHourRange = Some (startH, js_min endH (js_add startH (Fin 1))),
                     endHourRange = Some (js_max startH (js_sub endH (Fin 1)), endH),
                     endDetectionMethod = Some ManualEnd\<rparr>)"

text \<open>The format the documentation of \<^verbatim>\<open>--hours\<close> gives, \<^verbatim>\<open>9-18\<close> or \<^verbatim>\<open>9.5-18.5\<close>: two
  decimal numbers (digits, and possibly a point and more digits) with a hyphen between
  them.\<close>

definition isDecimalNumber :: "jsString \<Rightarrow> bool" where
  "isDecimalNumber s =
     (takeWhile isDigit s \<noteq> []
      \<and> (case dropWhile isDigit s of
            [] \<Rightarrow> True
          | c # r \<Rightarrow> c = point \<and> r \<noteq> [] \<and> list_all isDigit r))"

definition wellFormedHours :: "jsString \<Rightarrow> bool" where
  "wellFormedHours s =
     (case split_on hyphen s of
        [a, b] \<Rightarrow> isDecimalNumber a \<and> isDecimalNumber b
      | _ \<Rightarrow> False)"

text \<open>The result of the manual range \<^verbatim>\<open>0.00000000000000001-24\<close>: the day starts a
  fraction of a second after midnight. The start is the binary64 number nearest to
  \<open>10\<^sup>-\<^sup>1\<^sup>7\<close>.\<close>

definition earlyStart :: WorkTimeDetectionResult where
  "earlyStart =
     \<lparr>startHour = Fin (round64 (1 / 10 ^ 17)), endHour = Fin 24, isReliable = True,
      sampleCount = - 1, detectionMethod = Manual, confidence = Fin 100,
      startHourRange = Some (Fin (round64 (1 / 10 ^ 17)), Fin 1),
      endHourRange = Some (Fin 23, Fin 24),
      endDetectionMethod = Some ManualEnd\<rparr>"

section \<open>The project classifier (core/project-classifier.ts)\<close>

datatype ProjectType = CORPORATE | OPEN_SOURCE | UNCERTAIN

text \<open>Of each dimension, the fields \<^verbatim>\<open>makeDecision\<close> reads.\<close>

record WorkTimeRegularity =
  score :: jsnum

record WeekendActivity =
  ratio :: jsnum

record MoonlightingPattern =
  isActive :: bool

text \<open>The reasons \<^verbatim>\<open>makeDecision\<close> gives, without the numbers their texts quote.\<close>

datatype reason =
  ManyContributors | NoRegularity
  | RegularityVeryLow | RegularityLow | RegularityMedium
  | ContributorsMany | ContributorsMedium
  | WeekendHigh | WeekendHigher | WeekendMedium
  | MoonlightingActive | CorporatePattern

record Decision =
  projectType :: ProjectType
  decisionConfidence :: jsnum
  reasoning :: "reason list"

definition regularityPoints :: "jsnum \<Rightarrow> jsnum \<times> reason list" where
  "regularityPoints s =
     (if js_lt s (Fin 30) then (Fin 60, [RegularityVeryLow])
      else if js_lt s (Fin 50) then (Fin 40, [RegularityLow])
      else if js_lt s (Fin 75) then (Fin 20, [RegularityMedium])
      else (Fin 0, []))"

definition contributorPoints :: "jsnum \<Rightarrow> jsnum \<times> reason list" where
  "contributorPoints c =
     (if js_ge c (Fin 20) \<and> js_lt c (Fin 50) then (Fin 20, [ContributorsMany])
      else if js_ge c (Fin 10) \<and> js_lt c (Fin 20) then (Fin 10, [ContributorsMedium])
      else (Fin 0, []))"

definition weekendPoints :: "jsnum \<Rightarrow> jsnum \<times> reason list" where
  "weekendPoints r =
     (if js_ge r (to_double (30 / 100)) then (Fin 30, [WeekendHigh])
      else if js_ge r (to_double (20 / 100)) then (Fin 20, [WeekendHigher])
      else if js_ge r (to_double (15 / 100)) then (Fin 10, [WeekendMedium])
      else (Fin 0, []))"

definition moonlightingPoints :: "bool \<Rightarrow> jsnum \<times> reason list" where
  "moonlightingPoints active = (if active then (Fin 20, [MoonlightingActive]) else (Fin 0, []))"

definition makeDecision ::
  "WorkTimeRegularity \<Rightarrow> WeekendActivity \<Rightarrow> MoonlightingPattern \<Rightarrow> jsnum \<Rightarrow> Decision" where
  "makeDecision regularity weekend moonlighting contributorsCount =
     (if js_ge contributorsCount (Fin 50) then
        \<lparr>projectType = OPEN_SOURCE,
         decisionConfidence =
           js_min (Fin 95) (js_add (Fin 70) (js_floor (js_div contributorsCount (Fin 10)))),
         reasoning = [ManyContributors]\<rparr>
      else if js_le (score regularity) (Fin 25) then
        \<lparr>projectType = OPEN_SOURCE, decisionConfidence = Fin 90, reasoning = [NoRegularity]\<rparr>
      else
        let (p1, r1) = regularityPoints (score regularity);
            (p2, r2) = contributorPoints contributorsCount;
            (p3, r3) = weekendPoints (ratio weekend);
            (p4, r4) = moonlightingPoints (isActive moonlighting);
            ossScore = js_add (js_add (js_add (js_add (Fin 0) p1) p2) p3) p4;
            reasons = r1 @ r2 @ r3 @ r4
        in if js_ge ossScore (Fin 60) then
             \<lparr>projectType = OPEN_SOURCE,
              decisionConfidence =
                js_round (js_min (Fin 95) (js_add (Fin 50) (js_div ossScore (Fin 2)))),
              reasoning = reasons\<rparr>
           else if js_ge ossScore (Fin 40) then
             \<lparr>projectType = UNCERTAIN, decisionConfidence = js_round (Fin 50), reasoning = reasons\<rparr>
           else
             \<lparr>projectType = CORPORATE,
              decisionConfidence = js_round (js_min (Fin 95) (js_sub (Fin 80) ossScore)),
              reasoning = [CorporatePattern]\<rparr>)"

section \<open>The latest commit of each day (git/collectors/commit-collector.ts)\<close>

text \<open>What \<^verbatim>\<open>parseLocalTimestamp\<close> returns for a commit that passes the author and
  time-zone filters of the loop.\<close>

record ParsedTimestamp =
  dateKey :: dateKey
  hour :: nat
  minute :: nat

text \<open>The day and the minutes a commit is recorded under: a commit before 6 o'clock
  belongs to the day before, 24 hours later in the day. The timestamps are local ones
  (\<^verbatim>\<open>--date=format-local\<close>), in the zone \<open>wall\<close> of the machine.\<close>

definition effectiveCommit ::
  "(dateKey \<times> nat \<Rightarrow> dateKey \<times> nat) \<Rightarrow> ParsedTimestamp \<Rightarrow> dateKey \<times> nat" where
  "effectiveCommit wall parsed =
     (let effectiveDate = dateKey parsed;
          effectiveMinutes = hour parsed * 60 + minute parsed
      in if 0 \<le> hour parsed \<and> hour parsed < 6
         then (dayBefore wall (dateKey parsed), effectiveMinutes + 24 * 60)
         else (effectiveDate, effectiveMinutes))"

text \<open>The loop over the commits. \<open>dailyLatest\<close> is the \<^verbatim>\<open>Map\<close> of the source, an association
  list in the order of insertion: \<^verbatim>\<open>set\<close> replaces the value of a key in place or appends
  a new key.\<close>

fun latestLoop ::
  "(dateKey \<times> nat \<Rightarrow> dateKey \<times> nat) \<Rightarrow> ParsedTimestamp list \<Rightarrow> (dateKey \<times> nat) list
     \<Rightarrow> (dateKey \<times> nat) list" where
  "latestLoop wall [] dailyLatest = dailyLatest"
| "latestLoop wall (parsed # rest) dailyLatest =
     (case effectiveCommit wall parsed of (effectiveDate, effectiveMinutes) \<Rightarrow>
        (case map_of dailyLatest effectiveDate of
           None \<Rightarrow> latestLoop wall rest (AList.update effectiveDate effectiveMinutes dailyLatest)
         | Some current \<Rightarrow>
             if current < effectiveMinutes
             then latestLoop wall rest (AList.update effectiveDate effectiveMinutes dailyLatest)
             else latestLoop wall rest dailyLatest))"

definition getDailyLatestCommits ::
  "(dateKey \<times> nat \<Rightarrow> dateKey \<times> nat) \<Rightarrow> ParsedTimestamp list \<Rightarrow> DailyLatestCommit list" where
  "getDailyLatestCommits wall commits =
     sort_key date
       (map (\<lambda>(d, minutes). \<lparr>date = d, minutesFromMidnight = minutes\<rparr>)
          (latestLoop wall commits []))"

section \<open>Weekend overtime (core/overtime-analyzer.ts, utils/workday-checker.ts)\<close>

record WeekendOvertimeDistribution =
  saturdayDays :: nat
  sundayDays :: nat
  casualFixDays :: nat
  realOvertimeDays :: nat

text \<open>
  Two things come from outside the sources. The zone of the machine is \<open>utcOffset\<close>, which
  \<open>getDay\<close> reads: \<^verbatim>\<open>new Date(date).getDay()\<close> is 0 for Sunday to 6 for Saturday, on the
  local clock. The holiday calendar is the package \<^verbatim>\<open>holiday-calendar\<close>: \<open>None\<close> for the
  calendar when building it throws, and \<open>None\<close> for a date when its query throws.
\<close>

definition fallbackIsHoliday :: "(dateKey \<Rightarrow> int) \<Rightarrow> dateKey \<Rightarrow> bool" where
  "fallbackIsHoliday utcOffset d = (let dayOfWeek = getDay utcOffset d in dayOfWeek = 0 \<or> dayOfWeek = 6)"

definition isHoliday :: "(dateKey \<Rightarrow> int) \<Rightarrow> bool \<Rightarrow> (dateKey \<Rightarrow> bool option) \<Rightarrow> dateKey \<Rightarrow> bool" where
  "isHoliday utcOffset enabled calendar d =
     (if enabled then
        (case calendar d of Some b \<Rightarrow> b | None \<Rightarrow> fallbackIsHoliday utcOffset d)
      else fallbackIsHoliday utcOffset d)"

definition REAL_OVERTIME_THRESHOLD :: nat where
  "REAL_OVERTIME_THRESHOLD = 3"

text \<open>One more day in a tally, counted as real overtime or as a quick fix.\<close>

definition countSaturday :: "bool \<Rightarrow> WeekendOvertimeDistribution \<Rightarrow> WeekendOvertimeDistribution" where
  "countSaturday isRealOvertime acc =
     (if isRealOvertime
      then acc\<lparr>saturdayDays := saturdayDays acc + 1, realOvertimeDays := realOvertimeDays acc + 1\<rparr>
      else acc\<lparr>saturdayDays := saturdayDays acc + 1, casualFixDays := casualFixDays acc + 1\<rparr>)"

definition countSunday :: "bool \<Rightarrow> WeekendOvertimeDistribution \<Rightarrow> WeekendOvertimeDistribution" where
  "countSunday isRealOvertime acc =
     (if isRealOvertime
      then acc\<lparr>sundayDays := sundayDays acc + 1, realOvertimeDays := realOvertimeDays acc + 1\<rparr>
      else acc\<lparr>sundayDays := sundayDays acc + 1, casualFixDays := casualFixDays acc + 1\<rparr>)"

text \<open>The loop of \<^verbatim>\<open>calculateWeekendOvertime\<close>: a holiday that is neither a Saturday nor
  a Sunday is counted the way a Saturday is.\<close>

fun weekendLoop ::
  "(dateKey \<Rightarrow> int) \<Rightarrow> (dateKey \<Rightarrow> bool) \<Rightarrow> DailyCommitHours list
     \<Rightarrow> WeekendOvertimeDistribution \<Rightarrow> WeekendOvertimeDistribution" where
  "weekendLoop utcOffset holiday [] acc = acc"
| "weekendLoop utcOffset holiday (item # rest) acc =
     (if holiday (date item) then
        let dayOfWeek = getDay utcOffset (date item);
            commitHours = fcard (hours item);
            isRealOvertime = (REAL_OVERTIME_THRESHOLD \<le> commitHours)
        in if dayOfWeek = 6 then weekendLoop utcOffset holiday rest (countSaturday isRealOvertime acc)
           else if dayOfWeek = 0 then weekendLoop utcOffset holiday rest (countSunday isRealOvertime acc)
           else weekendLoop utcOffset holiday rest (countSaturday isRealOvertime acc)
      else weekendLoop utcOffset holiday rest acc)"

text \<open>The loop of \<^verbatim>\<open>calculateWeekendOvertimeBasic\<close>: Saturdays and Sundays only.\<close>

fun weekendLoopBasic ::
  "(dateKey \<Rightarrow> int) \<Rightarrow> DailyCommitHours list
     \<Rightarrow> WeekendOvertimeDistribution \<Rightarrow> WeekendOvertimeDistribution" where
  "weekendLoopBasic utcOffset [] acc = acc"
| "weekendLoopBasic utcOffset (item # rest) acc =
     (let dayOfWeek = getDay utcOffset (date item) in
      if dayOfWeek \<noteq> 0 \<and> dayOfWeek \<noteq> 6 then weekendLoopBasic utcOffset rest acc
      else
        let commitHours = fcard (hours item);
            isRealOvertime = (REAL_OVERTIME_THRESHOLD \<le> commitHours)
        in if dayOfWeek = 6 then weekendLoopBasic utcOffset rest (countSaturday isRealOvertime acc)
           else if dayOfWeek = 0 then weekendLoopBasic utcOffset rest (countSunday isRealOvertime acc)
           else weekendLoopBasic utcOffset rest acc)"

definition noDays :: WeekendOvertimeDistribution where
  "noDays = \<lparr>saturdayDays = 0, sundayDays = 0, casualFixDays = 0, realOvertimeDays = 0\<rparr>"

definition calculateWeekendOvertimeBasic ::
  "(dateKey \<Rightarrow> int) \<Rightarrow> DailyCommitHours list \<Rightarrow> WeekendOvertimeDistribution" where
  "calculateWeekendOvertimeBasic utcOffset dailyCommitHours = weekendLoopBasic utcOffset dailyCommitHours noDays"

definition calculateWeekendOvertime ::
  "(dateKey \<Rightarrow> int) \<Rightarrow> (dateKey \<Rightarrow> bool option) option \<Rightarrow> DailyCommitHours list \<Rightarrow> bool
     \<Rightarrow> WeekendOvertimeDistribution" where
  "calculateWeekendOvertime utcOffset holidayCalendar dailyCommitHours enableHolidayMode =
     (case holidayCalendar of
        None \<Rightarrow> calculateWeekendOvertimeBasic utcOffset dailyCommitHours
      | Some calendar \<Rightarrow>
          weekendLoop utcOffset (isHoliday utcOffset enableHolidayMode calendar) dailyCommitHours noDays)"

text \<open>A non-workday as the calendar has it: what the holiday calendar says of the date,
  and a Saturday or a Sunday where the calendar is not asked or has no answer.\<close>

definition nonWorkday :: "bool \<Rightarrow> (dateKey \<Rightarrow> bool option) \<Rightarrow> dateKey \<Rightarrow> bool" where
  "nonWorkday enabled calendar d =
     (let weekend = (calendarWeekDay d = 0 \<or> calendarWeekDay d = 6)
      in if enabled then (case calendar d of Some b \<Rightarrow> b | None \<Rightarrow> weekend) else weekend)"

text \<open>What "kept separately" asks of the Saturday tally: the non-workdays that are
  Saturdays.\<close>

definition holidaySaturdays :: "bool \<Rightarrow> (dateKey \<Rightarrow> bool option) \<Rightarrow> DailyCommitHours list \<Rightarrow> nat" where
  "holidaySaturdays enabled calendar days =
     length (filter (\<lambda>item. nonWorkday enabled calendar (date item)
                          \<and> calendarWeekDay (date item) = 6) days)"

section \<open>Properties of binary64 rounding\<close>

lemma log2_up_bounds: "1 \<le> q \<Longrightarrow> 2 ^ log2_up q \<le> q \<and> q < 2 ^ Suc (log2_up q)"
proof (induction q rule: log2_up.induct)
  case (1 q)
  show ?case
  proof (cases "q < 2")
    case True
    with "1.prems" show ?thesis by (simp add: log2_up.simps)
  next
    case False
    then have "1 \<le> q / 2" by simp
    from "1.IH"[OF False this] False show ?thesis
      by (simp add: log2_up.simps [of q])
  qed
qed

lemma log2_dn_bounds: "0 < q \<Longrightarrow> q < 1 \<Longrightarrow> 1 \<le> q * 2 ^ log2_dn q \<and> q * 2 ^ log2_dn q < 2"
proof (induction q rule: log2_dn.induct)
  case (1 q)
  have nc: "\<not> (q \<le> 0 \<or> 1 \<le> q)" using "1.prems" by simp
  show ?case
  proof (cases "q * 2 < 1")
    case True
    from "1.IH"[OF nc _ True] "1.prems" nc show ?thesis
      by (simp add: log2_dn.simps [of q] mult.assoc)
  next
    case False
    then have "log2_dn (q * 2) = 0" by (simp add: log2_dn.simps [of "q * 2"])
    with False "1.prems" nc show ?thesis
      by (simp add: log2_dn.simps [of q])
  qed
qed

lemma ilog2_bounds:
  assumes "0 < q"
  shows "2 powi ilog2 q \<le> q" and "q < 2 powi (ilog2 q + 1)"
proof -
  have "2 powi ilog2 q \<le> q \<and> q < 2 powi (ilog2 q + 1)"
  proof (cases "1 \<le> q")
    case True
    with log2_up_bounds[OF True] show ?thesis
      by (simp add: ilog2_def power_int_add)
  next
    case False
    then have lt: "q < 1" by simp
    let ?k = "log2_dn q"
    have p: "(0::rat) < 2 ^ ?k" by simp
    from log2_dn_bounds[OF assms lt] have a: "1 \<le> q * 2 ^ ?k" and b: "q * 2 ^ ?k < 2" by simp_all
    have "1 / 2 ^ ?k \<le> q" using a p by (simp add: field_simps)
    moreover have "q < 2 / 2 ^ ?k" using b p by (simp add: field_simps)
    moreover have "(2::rat) powi (1 - int ?k) = 2 / 2 ^ ?k"
      by (simp add: power_int_diff)
    moreover have "(2::rat) powi (- int ?k) = 1 / 2 ^ ?k"
      by (simp add: power_int_minus_divide)
    ultimately show ?thesis using False
      by (simp add: ilog2_def)
  qed
  then show "2 powi ilog2 q \<le> q" and "q < 2 powi (ilog2 q + 1)" by simp_all
qed

lemma powi2_less_cancel: "(2::rat) powi a < 2 powi b \<Longrightarrow> a < b"
proof (rule ccontr)
  assume "(2::rat) powi a < 2 powi b" "\<not> a < b"
  then have "b \<le> a" by simp
  then have "(2::rat) powi b \<le> 2 powi a" by (intro power_int_increasing) simp_all
  with \<open>(2::rat) powi a < 2 powi b\<close> show False by simp
qed

lemma ilog2_unique:
  assumes "0 < q" "2 powi e \<le> q" "q < 2 powi (e + 1)"
  shows "ilog2 q = e"
proof (rule antisym)
  have "(2::rat) powi ilog2 q < 2 powi (e + 1)"
    using ilog2_bounds(1)[OF assms(1)] assms(3) by simp
  then have "ilog2 q < e + 1" by (rule powi2_less_cancel)
  then show "ilog2 q \<le> e" by simp
next
  have "(2::rat) powi e < 2 powi (ilog2 q + 1)"
    using ilog2_bounds(2)[OF assms(1)] assms(2) by simp
  then have "e < ilog2 q + 1" by (rule powi2_less_cancel)
  then show "e \<le> ilog2 q" by simp
qed

lemma ilog2_mono:
  assumes "0 < a" "a \<le> b"
  shows "ilog2 a \<le> ilog2 b"
proof -
  have "0 < b" using assms by simp
  have "(2::rat) powi ilog2 a < 2 powi (ilog2 b + 1)"
    using ilog2_bounds(1)[OF assms(1)] ilog2_bounds(2)[OF \<open>0 < b\<close>] assms(2) by linarith
  then have "ilog2 a < ilog2 b + 1" by (rule powi2_less_cancel)
  then show ?thesis by simp
qed

lemma rne_of_int [simp]: "rne (of_int z) = z"
  by (simp add: rne_def)

lemma rne_error: "\<bar>of_int (rne t) - t\<bar> \<le> 1 / 2"
proof -
  have "of_int \<lfloor>t\<rfloor> \<le> t" "t < of_int \<lfloor>t\<rfloor> + 1" by linarith+
  then show ?thesis by (auto simp: rne_def Let_def)
qed

lemma rne_mono: assumes "a \<le> b" shows "rne a \<le> rne b"
proof (cases "\<lfloor>a\<rfloor> = \<lfloor>b\<rfloor>")
  case True
  with assms show ?thesis by (auto simp: rne_def Let_def)
next
  case False
  with assms have "\<lfloor>a\<rfloor> < \<lfloor>b\<rfloor>" using floor_mono[OF assms] by simp
  moreover have "rne a \<le> \<lfloor>a\<rfloor> + 1" by (auto simp: rne_def Let_def)
  moreover have "\<lfloor>b\<rfloor> \<le> rne b" by (auto simp: rne_def Let_def)
  ultimately show ?thesis by linarith
qed




lemma floor_minus_nonint: "t \<notin> \<int> \<Longrightarrow> \<lfloor>- t\<rfloor> = - \<lfloor>t\<rfloor> - 1" for t :: rat
proof -
  assume n: "t \<notin> \<int>"
  have "of_int \<lfloor>t\<rfloor> \<noteq> t" using n by (metis Ints_of_int)
  then have "of_int \<lfloor>t\<rfloor> < t" "t < of_int \<lfloor>t\<rfloor> + 1" by linarith+
  then show ?thesis by (intro floor_unique) simp_all
qed

lemma rne_minus: "rne (- t) = - rne t"
proof (cases "t \<in> \<int>")
  case True
  then obtain z where "t = of_int z" by (auto elim: Ints_cases)
  then show ?thesis by (simp flip: of_int_minus)
next
  case False
  have f: "\<lfloor>- t\<rfloor> = - \<lfloor>t\<rfloor> - 1" by (rule floor_minus_nonint[OF False])
  have e: "even (- \<lfloor>t\<rfloor> - 1) \<longleftrightarrow> odd \<lfloor>t\<rfloor>" by simp
  show ?thesis
    unfolding rne_def Let_def f e
    by (simp add: field_simps)
qed
lemma round64_alt: "q \<noteq> 0 \<Longrightarrow> round64 q = of_int (rne (q / ulp q)) * ulp q"
  by (simp add: round64_def)

lemma ulp_pos [simp]: "0 < ulp q"
  by (simp add: ulp_def)

lemma ulp_nonneg [simp]: "0 \<le> ulp q"
  by (simp add: ulp_def)

lemma ulp_neq0 [simp]: "ulp q \<noteq> 0"
  by (simp add: ulp_def)

lemma ulp_minus [simp]: "ulp (- q) = ulp q"
  by (simp add: ulp_def expo_def)

lemma round64_zero [simp]: "round64 0 = 0"
  by (simp add: round64_def)

lemma round64_minus: "round64 (- q) = - round64 q"
  by (cases "q = 0") (simp_all add: round64_alt rne_minus)

lemma round64_error_ulp: "\<bar>round64 q - q\<bar> \<le> ulp q / 2"
proof (cases "q = 0")
  case True then show ?thesis by simp
next
  case False
  let ?u = "ulp q"
  have "round64 q - q = (of_int (rne (q / ?u)) - q / ?u) * ?u"
    using False by (simp add: round64_alt left_diff_distrib)
  then have "\<bar>round64 q - q\<bar> = \<bar>of_int (rne (q / ?u)) - q / ?u\<bar> * ?u"
    by (simp add: abs_mult)
  also have "\<dots> \<le> (1 / 2) * ?u"
    by (intro mult_right_mono rne_error) simp
  finally show ?thesis by simp
qed

lemma round64_error:
  assumes "2 powi (- 1022) \<le> \<bar>q\<bar>"
  shows "\<bar>round64 q - q\<bar> \<le> \<bar>q\<bar> / 2 ^ 53"
proof -
  have pos: "0 < \<bar>q\<bar>" using assms zero_less_power_int[of "2::rat" "- 1022"] by linarith
  have "(2::rat) powi (- 1022) < 2 powi (ilog2 \<bar>q\<bar> + 1)"
    using ilog2_bounds(2)[OF pos] assms by linarith
  then have "- 1022 < ilog2 \<bar>q\<bar> + 1" by (rule powi2_less_cancel)
  then have e: "expo q = ilog2 \<bar>q\<bar>" by (simp add: expo_def)
  have "ulp q / 2 = 2 powi ilog2 \<bar>q\<bar> / 2 ^ 53"
    by (simp add: ulp_def e power_int_diff)
  also have "\<dots> \<le> \<bar>q\<bar> / 2 ^ 53"
    using ilog2_bounds(1)[OF pos] by (simp add: divide_right_mono)
  finally show ?thesis using round64_error_ulp[of q] by linarith
qed

lemma round64_repr:
  assumes "\<bar>z\<bar> < 2 ^ 53" "k \<le> 1074"
  shows "round64 (of_int z / 2 ^ k) = of_int z / 2 ^ k"
proof (cases "z = 0")
  case True then show ?thesis by simp
next
  case False
  let ?q = "of_int z / 2 ^ k :: rat"
  have q0: "?q \<noteq> 0" using False by simp
  then have pos: "0 < \<bar>?q\<bar>" by simp
  have "\<bar>?q\<bar> < 2 ^ 53 / 2 ^ k"
  proof -
    have "\<bar>of_int z :: rat\<bar> < 2 ^ 53" using assms(1) by (metis of_int_abs of_int_less_numeral_power_cancel_iff)
    then show ?thesis by (simp add: divide_strict_right_mono)
  qed
  also have "\<dots> = 2 powi (53 - int k)" by (simp add: power_int_diff)
  finally have "(2::rat) powi ilog2 \<bar>?q\<bar> < 2 powi (53 - int k)"
    using ilog2_bounds(1)[OF pos] by linarith
  then have "ilog2 \<bar>?q\<bar> < 53 - int k" by (rule powi2_less_cancel)
  then have "expo ?q \<le> 52 - int k" using assms(2) by (simp add: expo_def)
  then obtain j :: nat where j: "52 - int k - expo ?q = int j"
    by (metis diff_ge_0_iff_ge zero_le_imp_eq_int)
  have u: "ulp ?q = 1 / (2 ^ k * 2 ^ j)"
  proof -
    have "expo ?q - 52 = - (int k + int j)" using j by simp
    then show ?thesis unfolding ulp_def by (simp add: power_int_minus_divide power_add flip: of_nat_add)
  qed
  have "?q / ulp ?q = of_int (z * 2 ^ j)" by (simp add: u)
  then have "rne (?q / ulp ?q) = z * 2 ^ j" by (simp only: rne_of_int)
  then show ?thesis by (simp add: round64_alt[OF q0] u)
qed

lemma round64_of_int: "\<bar>z\<bar> < 2 ^ 53 \<Longrightarrow> round64 (of_int z) = of_int z"
  using round64_repr[of z 0] by simp

lemma round64_of_nat: "n < 2 ^ 53 \<Longrightarrow> round64 (of_nat n) = of_nat n"
  using round64_of_int[of "int n"] by simp

lemma round64_mono_pos:
  assumes "0 < a" "a \<le> b"
  shows "round64 a \<le> round64 b"
proof -
  have b: "0 < b" using assms by simp
  have ab: "\<bar>a\<bar> = a" "\<bar>b\<bar> = b" using assms by simp_all
  have ee: "expo a \<le> expo b" using ilog2_mono[OF assms] by (simp add: expo_def ab)
  show ?thesis
  proof (cases "expo a = expo b")
    case True
    then have u: "ulp a = ulp b" by (simp add: ulp_def)
    have "a / ulp b \<le> b / ulp b" using assms by (simp add: divide_right_mono)
    then have "rne (a / ulp b) \<le> rne (b / ulp b)" by (rule rne_mono)
    then show ?thesis using assms b by (simp add: round64_alt u)
  next
    case False
    with ee have lt: "expo a < expo b" by simp
    then have eb: "expo b = ilog2 b" by (auto simp: expo_def ab max_def split: if_splits)
    have "a < 2 powi (ilog2 a + 1)" using ilog2_bounds(2)[OF assms(1)] .
    also have "\<dots> \<le> 2 powi (expo a + 1)" by (intro power_int_increasing) (simp_all add: expo_def ab)
    finally have a1: "a < 2 powi (expo a + 1)" .
    have "a / ulp a \<le> 2 powi (expo a + 1) / ulp a" using a1 by (simp add: divide_right_mono)
    also have "\<dots> = of_int (2 ^ 53)" by (simp add: ulp_def power_int_diff power_int_add)
    finally have "rne (a / ulp a) \<le> rne (of_int (2 ^ 53))" by (rule rne_mono)
    then have "rne (a / ulp a) \<le> 2 ^ 53" by (simp only: rne_of_int)
    then have "of_int (rne (a / ulp a)) * ulp a \<le> 2 ^ 53 * ulp a"
      by (intro mult_right_mono) (simp_all add: of_int_le_numeral_power_cancel_iff)
    also have "\<dots> = 2 powi (expo a + 1)" by (simp add: ulp_def power_int_diff power_int_add)
    also have "\<dots> \<le> 2 powi expo b" using lt by (intro power_int_increasing) simp_all
    finally have fa: "round64 a \<le> 2 powi expo b" using assms by (simp add: round64_alt)
    have "2 powi expo b / ulp b \<le> b / ulp b"
      using ilog2_bounds(1)[OF b] by (simp add: eb divide_right_mono)
    moreover have "2 powi expo b / ulp b = of_int (2 ^ 52)" by (simp add: ulp_def power_int_diff)
    ultimately have "rne (of_int (2 ^ 52)) \<le> rne (b / ulp b)" by (metis rne_mono)
    then have "2 ^ 52 \<le> rne (b / ulp b)" by (simp only: rne_of_int)
    then have r: "(2::rat) ^ 52 \<le> of_int (rne (b / ulp b))"
      by (simp only: numeral_power_le_of_int_cancel_iff)
    have "2 powi expo b = 2 ^ 52 * ulp b" by (simp add: ulp_def power_int_diff)
    also have "\<dots> \<le> of_int (rne (b / ulp b)) * ulp b"
      by (rule mult_right_mono[OF r]) simp
    also have "\<dots> = round64 b" using b by (simp add: round64_alt)
    finally show ?thesis using fa by linarith
  qed
qed

lemma round64_nonneg: "0 \<le> q \<Longrightarrow> 0 \<le> round64 q"
proof (cases "q = 0")
  case False
  assume "0 \<le> q"
  then have "0 \<le> q / ulp q" by simp
  then have "rne 0 \<le> rne (q / ulp q)" by (rule rne_mono)
  then have "0 \<le> rne (q / ulp q)" using rne_of_int[of 0] by simp
  then show ?thesis using False by (simp add: round64_alt)
qed simp

lemma round64_mono:
  assumes "a \<le> b"
  shows "round64 a \<le> round64 b"
proof -
  consider "0 < a" | "a \<le> 0" "0 \<le> b" | "b < 0" using assms by linarith
  then show ?thesis
  proof cases
    case 1 then show ?thesis using assms by (rule round64_mono_pos)
  next
    case 2
    have "0 \<le> round64 b" using 2 by (simp add: round64_nonneg)
    moreover have "0 \<le> round64 (- a)" using 2 by (simp add: round64_nonneg)
    ultimately show ?thesis by (simp add: round64_minus)
  next
    case 3
    then have "round64 (- b) \<le> round64 (- a)" using assms by (intro round64_mono_pos) simp_all
    then show ?thesis by (simp add: round64_minus)
  qed
qed

section \<open>Evaluating the model on concrete inputs\<close>

lemma floor_rat_numeral [simp]: "\<lfloor>numeral a / numeral b :: rat\<rfloor> = numeral a div numeral b"
  using floor_divide_of_int_eq[of "numeral a" "numeral b", where ?'a = rat] by simp

lemma ceiling_rat_numeral [simp]: "\<lceil>numeral a / numeral b :: rat\<rceil> = - (- numeral a div numeral b)"
  using ceiling_divide_eq_div[of "numeral a" "numeral b", where ?'a = rat] by simp

lemmas round64_eval = round64_def ulp_def expo_def ilog2_def log2_up.simps log2_dn.simps rne_def Let_def

lemmas js_eval = to_double_def js_of_nat_def js_sub_def js_le_def js_ge_def js_gt_def js_min_def js_max_def

lemmas index_eval = calculate996Index_def workTimeData_def primaryRadio_def getUn996Radio_def
  generateDescription_def

section \<open>Operations that are exact\<close>

lemma round64_of_int_bound:
  assumes "\<bar>r\<bar> \<le> of_int B" "B < 2 ^ 53"
  shows "\<bar>round64 r\<bar> \<le> of_int B"
proof -
  have B0: "0 \<le> B" using assms(1) by (metis abs_ge_zero of_int_0_le_iff order_trans)
  then have aB: "\<bar>B\<bar> < 2 ^ 53" "\<bar>- B\<bar> < 2 ^ 53" using assms(2) by simp_all
  have "r \<le> of_int B" "of_int (- B) \<le> r" using assms(1) by (simp_all add: abs_le_iff) 
  then have "round64 r \<le> round64 (of_int B)" "round64 (of_int (- B)) \<le> round64 r"
    by (simp_all only: round64_mono)
  then show ?thesis using round64_of_int[OF aB(1)] round64_of_int[OF aB(2)]
    by (simp add: abs_le_iff)
qed

lemma to_double_in_range:
  assumes "\<bar>round64 r\<bar> \<le> 2 ^ 53"
  shows "to_double r = Fin (round64 r)"
proof -
  define M :: rat where "M = 2 ^ 1024"
  have "(2::rat) ^ 53 < 2 ^ 1024" by simp
  then have "round64 r < M" "- M < round64 r" using assms by (simp_all add: abs_le_iff M_def)
  then have "\<not> M \<le> round64 r" "\<not> round64 r \<le> - M" by simp_all
  then show ?thesis unfolding to_double_def Let_def M_def by simp
qed

lemma round64_pow53: "round64 (2 ^ 53) = 2 ^ 53"
  by (simp add: round64_eval)

lemma round64_bound53:
  assumes "\<bar>r\<bar> \<le> 2 ^ 53"
  shows "\<bar>round64 r\<bar> \<le> 2 ^ 53"
proof -
  have "r \<le> 2 ^ 53" "- (2 ^ 53) \<le> r" using assms by (simp_all add: abs_le_iff)
  then have "round64 r \<le> round64 (2 ^ 53)" "round64 (- (2 ^ 53)) \<le> round64 r"
    by (simp_all only: round64_mono)
  then have "round64 r \<le> 2 ^ 53" "- (2 ^ 53) \<le> round64 r"
    by (simp_all only: round64_minus round64_pow53)
  then show ?thesis unfolding abs_le_iff by linarith
qed

lemma to_double_Fin:
  assumes "\<bar>r\<bar> \<le> 2 ^ 53"
  shows "to_double r = Fin (round64 r)"
  by (rule to_double_in_range[OF round64_bound53[OF assms]])

lemma to_double_repr:
  assumes "\<bar>z\<bar> < 2 ^ 53" "k \<le> 1074"
  shows "to_double (of_int z / 2 ^ k) = Fin (of_int z / 2 ^ k)"
proof -
  have "\<bar>of_int z :: rat\<bar> < 2 ^ 53" using assms(1) by (metis of_int_abs of_int_less_numeral_power_cancel_iff)
  moreover have "\<bar>of_int z / 2 ^ k :: rat\<bar> \<le> \<bar>of_int z\<bar>"
    by (simp add: divide_le_eq abs_mult mult_le_cancel_left1)
  ultimately have "\<bar>round64 (of_int z / 2 ^ k)\<bar> \<le> 2 ^ 53"
    using round64_repr[OF assms] by simp
  then show ?thesis using round64_repr[OF assms] to_double_in_range by simp
qed

lemma to_double_of_int: "\<bar>z\<bar> < 2 ^ 53 \<Longrightarrow> to_double (of_int z) = Fin (of_int z)"
  using to_double_repr[of z 0] by simp

lemma to_double_half: "\<bar>z\<bar> < 2 ^ 53 \<Longrightarrow> to_double (of_int z / 2) = Fin (of_int z / 2)"
  using to_double_repr[of z 1] by simp

lemma js_of_nat_exact: "n < 2 ^ 53 \<Longrightarrow> js_of_nat n = Fin (of_nat n)"
  using to_double_of_int[of "int n"] by (simp add: js_of_nat_def)

lemma tiny_le: "(1::rat) / 2 ^ 1022 \<le> 1 / 2 ^ 53"
proof -
  have "(2::rat) ^ 53 \<le> 2 ^ 1022" by (rule power_increasing) simp_all
  then show ?thesis by (intro divide_left_mono) simp_all
qed

lemma round64_error_pos:
  assumes "1 / 2 ^ 53 \<le> q"
  shows "\<bar>round64 q - q\<bar> \<le> q / 2 ^ 53"
proof -
  have "(0::rat) < 1 / 2 ^ 53" by simp
  then have q: "0 < q" using assms by linarith
  have "1 / 2 ^ 1022 \<le> q" using assms tiny_le by linarith
  then have "2 powi (- 1022) \<le> \<bar>q\<bar>" using q by (simp only: power_int_minus_divide power_int_numeral abs_of_pos)
  from round64_error[OF this] q show ?thesis by simp
qed

lemma floor_round64_div:
  assumes "n < 2 ^ 53" "0 < b" "b < 2 ^ 53"
  shows "\<lfloor>round64 (of_nat n / of_nat b)\<rfloor> = int (n div b)"
proof (cases "n = 0")
  case True then show ?thesis by simp
next
  case False
  let ?v = "of_nat n / of_nat b :: rat"
  let ?d = "n div b"
  have bpos: "(0::rat) < of_nat b" using assms(2) by simp
  have "of_nat ?d \<le> ?v"
    using bpos by (simp add: le_divide_eq flip: of_nat_mult)
  then have "round64 (of_nat ?d) \<le> round64 ?v" by (rule round64_mono)
  moreover have "?d < 2 ^ 53" using assms(1) div_le_dividend[of n b] by linarith
  ultimately have lo: "of_nat ?d \<le> round64 ?v" by (simp add: round64_of_nat)
  have nb: "n < b * ?d + b" using assms(2) by (metis add.commute dividend_less_times_div mult.commute)
  then have "n + 1 \<le> b * ?d + b" by simp
  then have "(of_nat (n + 1) :: rat) \<le> of_nat (b * ?d + b)" by (simp only: of_nat_le_iff)
  then have up: "?v + 1 / of_nat b \<le> of_nat ?d + 1"
    using bpos by (simp add: field_simps)
  have n53: "(of_nat n :: rat) < 2 ^ 53" using assms(1) by (metis of_nat_less_numeral_power_cancel_iff)
  have "1 / 2 ^ 53 \<le> ?v"
  proof -
    have "(of_nat b :: rat) \<le> 2 ^ 53" using assms(3) by (metis less_imp_le of_nat_le_numeral_power_cancel_iff)
    moreover have "(1::rat) \<le> of_nat n" using False by simp
    then have "(2::rat) ^ 53 * 1 \<le> 2 ^ 53 * of_nat n" by (intro mult_left_mono) simp_all
    ultimately have "of_nat b \<le> (of_nat n :: rat) * 2 ^ 53" by (simp add: mult.commute)
    then show ?thesis using bpos by (simp add: field_simps)
  qed
  then have "\<bar>round64 ?v - ?v\<bar> \<le> ?v / 2 ^ 53" by (rule round64_error_pos)
  moreover have "?v / 2 ^ 53 < 1 / of_nat b"
    using n53 bpos by (simp add: field_simps)
  ultimately have "round64 ?v < of_nat ?d + 1" using up by (simp add: abs_le_iff) 
  with lo show ?thesis by (intro floor_unique) simp_all
qed

lemma js_ge_Fin [simp]: "js_ge (Fin a) (Fin b) = (b \<le> a)"
  by (auto simp: js_ge_def js_le_def)

lemma js_le_Fin [simp]: "js_le (Fin a) (Fin b) = (a \<le> b)"
  by (auto simp: js_le_def)

lemma js_min_Fin [simp]: "js_min (Fin a) (Fin b) = Fin (min a b)"
  by (auto simp: js_min_def min_def)

lemma js_max_Fin [simp]: "js_max (Fin a) (Fin b) = Fin (max a b)"
  by (auto simp: js_max_def max_def)

lemma js_add_int:
  "\<bar>a + b\<bar> < 2 ^ 53 \<Longrightarrow> js_add (Fin (of_int a)) (Fin (of_int b)) = Fin (of_int (a + b))"
  using to_double_of_int[of "a + b"] by simp

lemma js_div_nat:
  assumes "n < 2 ^ 53" "0 < b"
  shows "js_div (Fin (of_nat n)) (Fin (of_nat b)) = Fin (round64 (of_nat n / of_nat b))"
proof -
  have "\<bar>of_nat n / of_nat b :: rat\<bar> \<le> of_nat n"
    using assms(2) by (simp add: divide_le_eq mult_le_cancel_left1)
  moreover have "(of_nat n :: rat) \<le> 2 ^ 53"
    using assms(1) by (metis less_imp_le of_nat_le_numeral_power_cancel_iff)
  ultimately have "\<bar>of_nat n / of_nat b :: rat\<bar> \<le> 2 ^ 53" by linarith
  then have "to_double (of_nat n / of_nat b) = Fin (round64 (of_nat n / of_nat b))"
    by (rule to_double_Fin)
  then show ?thesis using assms(2) by simp
qed

lemma js_floor_div_nat:
  assumes "n < 2 ^ 53" "0 < b" "b < 2 ^ 53"
  shows "js_floor (js_div (Fin (of_nat n)) (Fin (of_nat b))) = Fin (of_nat (n div b))"
  by (simp only: js_div_nat[OF assms(1,2)] js_floor.simps floor_round64_div[OF assms] of_int_of_nat_eq)

lemma to_double_int_value:
  assumes "r = of_int z" "\<bar>z\<bar> < 2 ^ 53"
  shows "to_double r = Fin (of_int z)"
  unfolding assms(1) by (rule to_double_of_int[OF assms(2)])

lemma to_double_half_value:
  assumes "r = of_int z / 2" "\<bar>z\<bar> < 2 ^ 53"
  shows "to_double r = Fin (of_int z / 2)"
  unfolding assms(1) by (rule to_double_half[OF assms(2)])

section \<open>Lemmas for the start-time detection\<close>

lemma of_nat_lt_pow53: "n < 2 ^ 53 \<Longrightarrow> \<bar>int n\<bar> < 2 ^ 53"
  by simp

lemma to_double_nat_value:
  assumes "r = of_nat n" "n < 2 ^ 53"
  shows "to_double r = Fin (of_nat n)"
  using to_double_of_int[of "int n"] assms by simp

lemma js_add_nat:
  "a + b < 2 ^ 53 \<Longrightarrow> js_add (Fin (of_nat a)) (Fin (of_nat b)) = Fin (of_nat (a + b))"
  by (simp add: to_double_nat_value[of _ "a + b"])

lemma js_mul_nat:
  "a * b < 2 ^ 53 \<Longrightarrow> js_mul (Fin (of_nat a)) (Fin (of_nat b)) = Fin (of_nat (a * b))"
  by (simp add: to_double_nat_value[of _ "a * b"])

lemma js_sub_nat:
  "b \<le> a \<Longrightarrow> a < 2 ^ 53 \<Longrightarrow> js_sub (Fin (of_nat a)) (Fin (of_nat b)) = Fin (of_nat (a - b))"
  by (simp add: js_sub_def to_double_nat_value[of _ "a - b"] of_nat_diff)

lemma js_min_nat: "js_min (Fin (of_nat a)) (Fin (of_nat b)) = Fin (of_nat (min a b))"
  by (simp add: min_def)

lemma js_max_nat: "js_max (Fin (of_nat a)) (Fin (of_nat b)) = Fin (of_nat (max a b))"
  by (simp add: max_def)

lemma js_index_nat: "i < length xs \<Longrightarrow> js_index xs (Fin (of_nat i)) = Some (xs ! i)"
  by (simp add: js_index_def)

lemma round64_tenth: "round64 (1 / 10) = 3602879701896397 / 36028797018963968"
  by (simp add: round64_eval)

lemma round64_fifth: "round64 (1 / 5) = 3602879701896397 / 18014398509481984"
  by (simp add: round64_eval)

lemma to_double_tenth: "to_double (1 / 10) = Fin (3602879701896397 / 36028797018963968)"
  by (simp add: to_double_Fin round64_tenth)

lemma to_double_fifth: "to_double (1 / 5) = Fin (3602879701896397 / 18014398509481984)"
  by (simp add: to_double_Fin round64_fifth)

lemma floor_round64_scaled:
  fixes c :: rat
  assumes k: "k < 2 ^ 32" and kd: "k \<le> q * d + (q - 1)" "q * d \<le> k"
    and c: "1 / of_nat q \<le> c" "c \<le> 1 / of_nat q + 1 / 2 ^ 50" and q: "0 < q" "q \<le> 10"
  shows "\<lfloor>round64 (of_nat k * c)\<rfloor> = int d"
proof (cases "k = 0")
  case True
  then have "d = 0" using kd q by simp
  then show ?thesis using True by simp
next
  case False
  let ?v = "of_nat k * c"
  have qr: "(0::rat) < of_nat q" "(of_nat q :: rat) \<le> 10" using q by simp_all
  have k1: "(1::rat) \<le> of_nat k" using False by simp
  have k32: "(of_nat k :: rat) < 2 ^ 32" using k by (metis of_nat_less_numeral_power_cancel_iff)
  have cpos: "1 / 10 \<le> c"
  proof -
    have "(1::rat) / 10 \<le> 1 / of_nat q" using qr by (simp add: field_simps)
    then show ?thesis using c(1) by linarith
  qed
  have cle: "c \<le> 2"
  proof -
    have "(1::rat) / of_nat q \<le> 1" using q by (simp add: field_simps)
    then show ?thesis using c(2) by simp
  qed
  have lo1: "of_nat d \<le> of_nat k / (of_nat q :: rat)"
  proof -
    have "(of_nat (q * d) :: rat) \<le> of_nat k" using kd(2) by (simp only: of_nat_le_iff)
    then show ?thesis using qr by (simp add: field_simps)
  qed
  have "of_nat k / of_nat q \<le> ?v"
  proof -
    have "of_nat k * (1 / of_nat q) \<le> of_nat k * c" using c(1) by (intro mult_left_mono) simp_all
    then show ?thesis by simp
  qed
  with lo1 have "of_nat d \<le> ?v" by linarith
  then have "round64 (of_nat d) \<le> round64 ?v" by (rule round64_mono)
  moreover have "d < 2 ^ 53"
  proof -
    have "d \<le> q * d" using q by simp
    then have "d \<le> k" using kd(2) by linarith
    moreover have "(2::nat) ^ 32 \<le> 2 ^ 53" by simp
    ultimately show ?thesis using k by linarith
  qed
  ultimately have lo: "of_nat d \<le> round64 ?v" by (simp add: round64_of_nat)
  have up1: "of_nat k / (of_nat q :: rat) \<le> of_nat d + 1 - 1 / of_nat q"
  proof -
    have "k + 1 \<le> q * d + q" using kd(1) q by simp
    then have "(of_nat (k + 1) :: rat) \<le> of_nat (q * d + q)" by (simp only: of_nat_le_iff)
    then show ?thesis using qr by (simp add: field_simps)
  qed
  have up2: "?v \<le> of_nat k / of_nat q + of_nat k / 2 ^ 50"
  proof -
    have "of_nat k * c \<le> of_nat k * (1 / of_nat q + 1 / 2 ^ 50)"
      using c(2) by (intro mult_left_mono) simp_all
    then show ?thesis by (simp add: distrib_left)
  qed
  have v1: "1 / 2 ^ 53 \<le> ?v"
  proof -
    have "1 * (1 / 10) \<le> of_nat k * c" using k1 cpos by (intro mult_mono) simp_all
    then show ?thesis by simp
  qed
  have vle: "?v \<le> 2 ^ 33"
  proof -
    have "0 \<le> c" using cpos by simp
    then have "of_nat k * c \<le> 2 ^ 32 * 2" using k32 cle by (intro mult_mono) simp_all
    then show ?thesis by simp
  qed
  define v where "v = ?v"
  define kk :: rat where "kk = of_nat k"
  have "\<bar>round64 v - v\<bar> \<le> v / 2 ^ 53" using v1 unfolding v_def by (rule round64_error_pos)
  then have r1: "round64 v \<le> v + v / 2 ^ 53" by linarith
  have "v / 2 ^ 53 \<le> 2 ^ 33 / 2 ^ 53" using vle unfolding v_def by (rule divide_right_mono) simp
  then have r2: "v / 2 ^ 53 \<le> 1 / 2 ^ 20" by simp
  have "kk / 2 ^ 50 \<le> 2 ^ 32 / 2 ^ 50" using k32 unfolding kk_def by (intro divide_right_mono) simp_all
  then have r3: "kk / 2 ^ 50 \<le> 1 / 2 ^ 18" by simp
  have r4: "(1::rat) / 10 \<le> 1 / of_nat q" using qr by (simp add: field_simps)
  have r5: "v \<le> kk / of_nat q + kk / 2 ^ 50" using up2 unfolding v_def kk_def .
  have r6: "kk / of_nat q \<le> of_nat d + 1 - 1 / of_nat q" using up1 unfolding kk_def .
  have "(1::rat) / 2 ^ 20 + 1 / 2 ^ 18 < 1 / 10" by simp
  with r1 r2 r3 r4 r5 r6 have "round64 v < of_nat d + 1" by linarith
  then have "round64 ?v < of_nat d + 1" unfolding v_def .
  with lo show ?thesis by (intro floor_unique) simp_all
qed


lemma quantile_index:
  assumes "k < 2 ^ 32"
  shows "js_floor (js_mul (Fin (of_nat k)) (to_double (1 / 10))) = Fin (of_nat (k div 10))"
    and "js_floor (js_mul (Fin (of_nat k)) (to_double (1 / 5))) = Fin (of_nat (k div 5))"
proof -
  have k32: "(of_nat k :: rat) < 2 ^ 32" using assms by (metis of_nat_less_numeral_power_cancel_iff)
  have b: "\<And>c::rat. 0 \<le> c \<Longrightarrow> c \<le> 1 \<Longrightarrow> \<bar>of_nat k * c\<bar> \<le> 2 ^ 53"
  proof -
    fix c :: rat assume c: "0 \<le> c" "c \<le> 1"
    then have "of_nat k * c \<le> 2 ^ 32 * 1" using k32 by (intro mult_mono) simp_all
    moreover have "0 \<le> of_nat k * c" using c by simp
    ultimately show "\<bar>of_nat k * c\<bar> \<le> 2 ^ 53" by simp
  qed
  let ?c = "3602879701896397 / 36028797018963968 :: rat"
  have "\<lfloor>round64 (of_nat k * ?c)\<rfloor> = int (k div 10)"
    using assms by (intro floor_round64_scaled[where q = 10]) simp_all
  then show "js_floor (js_mul (Fin (of_nat k)) (to_double (1 / 10))) = Fin (of_nat (k div 10))"
    using to_double_Fin[OF b[of ?c]] by (simp add: to_double_tenth)
  let ?e = "3602879701896397 / 18014398509481984 :: rat"
  have "\<lfloor>round64 (of_nat k * ?e)\<rfloor> = int (k div 5)"
    using assms by (intro floor_round64_scaled[where q = 5]) simp_all
  then show "js_floor (js_mul (Fin (of_nat k)) (to_double (1 / 5))) = Fin (of_nat (k div 5))"
    using to_double_Fin[OF b[of ?e]] by (simp add: to_double_fifth)
qed

lemma calculateQuantile_order_statistic:
  assumes "samples \<noteq> []" "length samples < 2 ^ 32" "\<forall>m \<in> set samples. m < 2 ^ 53"
  shows "calculateQuantile samples (to_double (1 / 10)) fallback =
           Fin (of_nat (sort samples ! ((length samples - 1) div 10)))"
    and "calculateQuantile samples (to_double (1 / 5)) fallback =
           Fin (of_nat (sort samples ! ((length samples - 1) div 5)))"
proof -
  let ?n = "length samples"
  have n: "0 < ?n" using assms(1) by simp
  have n53: "?n < 2 ^ 53"
  proof -
    have "(2::nat) ^ 32 \<le> 2 ^ 53" by simp
    then show ?thesis using assms(2) by linarith
  qed
  have len: "js_of_nat (length (sort samples)) = Fin (of_nat ?n)"
    using n53 by (simp add: js_of_nat_exact)
  have n1: "1 \<le> ?n" using assms(1) by (cases samples) simp_all
  have "js_sub (Fin (of_nat ?n)) (Fin (of_nat 1)) = Fin (of_nat (?n - 1))"
    using n1 n53 by (rule js_sub_nat)
  then have sub: "js_sub (Fin (of_nat ?n)) (Fin 1) = Fin (of_nat (?n - 1))" by simp
  have k: "?n - 1 < 2 ^ 32" using assms(2) by simp
  have i10: "(?n - 1) div 10 < length (sort samples)" and i5: "(?n - 1) div 5 < length (sort samples)"
    using n by (simp_all add: div_le_dividend less_imp_diff_less le_less_trans [OF div_le_dividend])
  have v: "\<And>i. i < length (sort samples) \<Longrightarrow> js_of_nat (sort samples ! i) = Fin (of_nat (sort samples ! i))"
  proof -
    fix i assume "i < length (sort samples)"
    then have "sort samples ! i \<in> set (sort samples)" by (rule nth_mem)
    then have "sort samples ! i < 2 ^ 53" using assms(3) by simp
    then show "js_of_nat (sort samples ! i) = Fin (of_nat (sort samples ! i))" by (rule js_of_nat_exact)
  qed
  show "calculateQuantile samples (to_double (1 / 10)) fallback =
           Fin (of_nat (sort samples ! ((length samples - 1) div 10)))"
    unfolding calculateQuantile_def Let_def len sub quantile_index(1)[OF k] js_index_nat[OF i10]
    using assms(1) v[OF i10] by simp
  show "calculateQuantile samples (to_double (1 / 5)) fallback =
           Fin (of_nat (sort samples ! ((length samples - 1) div 5)))"
    unfolding calculateQuantile_def Let_def len sub quantile_index(2)[OF k] js_index_nat[OF i5]
    using assms(1) v[OF i5] by simp
qed

lemma roundDownToHalfHour_nat:
  assumes "m < 2 ^ 40"
  shows "roundDownToHalfHour (Fin (of_nat m)) = Fin (of_nat (m div 30 * 30))"
proof -
  have m53: "m < 2 ^ 53"
  proof -
    have "(2::nat) ^ 40 \<le> 2 ^ 53" by simp
    then show ?thesis using assms by linarith
  qed
  have "js_floor (js_div (Fin (of_nat m)) (Fin (of_nat 30))) = Fin (of_nat (m div 30))"
    using m53 by (intro js_floor_div_nat) simp_all
  then have f: "js_floor (js_div (Fin (of_nat m)) (Fin 30)) = Fin (of_nat (m div 30))" by simp
  have "m div 30 * 30 \<le> m" by simp
  then have "m div 30 * 30 < 2 ^ 53" using m53 by linarith
  then have "js_mul (Fin (of_nat (m div 30))) (Fin (of_nat 30)) = Fin (of_nat (m div 30 * 30))"
    by (rule js_mul_nat)
  then have "js_mul (Fin (of_nat (m div 30))) (Fin 30) = Fin (of_nat (m div 30 * 30))" by simp
  then show ?thesis unfolding roundDownToHalfHour_def Let_def f .
qed

lemma js_div_sixty:
  assumes "m < 2 ^ 40" "30 dvd m"
  shows "js_div (Fin (of_nat m)) (Fin 60) = Fin (of_nat m / 60)"
proof -
  obtain j where j: "m = 30 * j" using assms(2) by (auto simp: dvd_def)
  have "j < 2 ^ 40" using assms(1) j by simp
  moreover have "(2::nat) ^ 40 \<le> 2 ^ 53" by simp
  ultimately have "j < 2 ^ 53" by linarith
  then have "\<bar>int j\<bar> < 2 ^ 53" by simp
  moreover have "of_nat m / 60 = (of_int (int j) / 2 :: rat)" by (simp add: j)
  ultimately have "to_double (of_nat m / 60) = Fin (of_int (int j) / 2)"
    by (intro to_double_half_value)
  then show ?thesis using \<open>of_nat m / 60 = (of_int (int j) / 2 :: rat)\<close> by simp
qed

lemma buildStartHourRange_nat:
  assumes "l < 2 ^ 40" "u < 2 ^ 40"
  shows "buildStartHourRange (Fin (of_nat l)) (Fin (of_nat u)) =
     (let boundedLower = max 300 (min l 720);
          boundedUpper = max 300 (min u 720);
          sanitizedLower = boundedLower div 30 * 30;
          sanitizedUpper = max boundedUpper (sanitizedLower + 30) div 30 * 30;
          start = min sanitizedLower sanitizedUpper;
          end0 = max sanitizedUpper (start + 30);
          end1 = min (min end0 (start + 60)) 720
      in (Fin (of_nat start / 60), Fin (of_nat end1 / 60)))"
proof -
  define bl where "bl = max 300 (min l 720)"
  define bu where "bu = max 300 (min u 720)"
  define sl where "sl = bl div 30 * 30"
  define su where "su = max bu (sl + 30) div 30 * 30"
  define start where "start = min sl su"
  define end0 where "end0 = max su (start + 30)"
  define end1 where "end1 = min (min end0 (start + 60)) 720"
  have c300: "Fin 300 = Fin (of_nat 300)" and c720: "Fin 720 = Fin (of_nat 720)"
    and c30: "Fin 30 = Fin (of_nat 30)" and c60: "Fin 60 = Fin (of_nat 60)" by simp_all
  have bl_le: "bl \<le> 720" and bu_le: "bu \<le> 720" by (simp_all add: bl_def bu_def)
  have dm: "\<And>m::nat. m div 30 * 30 \<le> m" by simp
  have sl_le: "sl \<le> 720" using bl_le dm[of bl] unfolding sl_def by linarith
  have su_le: "su \<le> 750"
  proof -
    have "max bu (sl + 30) \<le> 750" using bu_le sl_le by simp
    then show ?thesis using dm[of "max bu (sl + 30)"] unfolding su_def by linarith
  qed
  have start_le: "start \<le> 720" using sl_le by (simp add: start_def)
  have end0_le: "end0 \<le> 750" using su_le start_le by (simp add: end0_def)
  have end1_le: "end1 \<le> 720" by (simp add: end1_def)
  have p40: "(750::nat) < 2 ^ 40" "(780::nat) < 2 ^ 53" by simp_all
  have BL: "js_max MIN_VALID_MINUTES (js_min (Fin (of_nat l)) MAX_VALID_MINUTES) = Fin (of_nat bl)"
    unfolding MIN_VALID_MINUTES_def MAX_VALID_MINUTES_def c300 c720 js_min_nat js_max_nat bl_def ..
  have BU: "js_max MIN_VALID_MINUTES (js_min (Fin (of_nat u)) MAX_VALID_MINUTES) = Fin (of_nat bu)"
    unfolding MIN_VALID_MINUTES_def MAX_VALID_MINUTES_def c300 c720 js_min_nat js_max_nat bu_def ..
  have SL: "roundDownToHalfHour (Fin (of_nat bl)) = Fin (of_nat sl)"
    unfolding sl_def using bl_le p40 by (intro roundDownToHalfHour_nat) linarith
  have A1: "js_add (Fin (of_nat sl)) (Fin 30) = Fin (of_nat (sl + 30))"
    unfolding c30 using sl_le p40 by (intro js_add_nat) linarith
  have SU: "roundDownToHalfHour (js_max (Fin (of_nat bu)) (Fin (of_nat (sl + 30)))) = Fin (of_nat su)"
    unfolding js_max_nat su_def using bu_le sl_le p40 by (intro roundDownToHalfHour_nat) simp
  have ST: "js_min (Fin (of_nat sl)) (Fin (of_nat su)) = Fin (of_nat start)"
    unfolding js_min_nat start_def ..
  have A2: "js_add (Fin (of_nat start)) (Fin 30) = Fin (of_nat (start + 30))"
    unfolding c30 using start_le p40 by (intro js_add_nat) linarith
  have A3: "js_add (Fin (of_nat start)) (Fin 60) = Fin (of_nat (start + 60))"
    unfolding c60 using start_le p40 by (intro js_add_nat) linarith
  have E0: "js_max (Fin (of_nat su)) (Fin (of_nat (start + 30))) = Fin (of_nat end0)"
    unfolding js_max_nat end0_def ..
  have E1: "js_min (js_min (Fin (of_nat end0)) (Fin (of_nat (start + 60)))) MAX_VALID_MINUTES
      = Fin (of_nat end1)"
    unfolding MAX_VALID_MINUTES_def c720 js_min_nat end1_def ..
  have d_sl: "30 dvd sl" and d_su: "30 dvd su" by (simp_all add: sl_def su_def)
  then have d_start: "30 dvd start" by (simp add: start_def min_def)
  then have d_end0: "30 dvd end0" using d_su by (simp add: end0_def max_def)
  then have d_end1: "30 dvd end1" using d_start by (simp add: end1_def min_def)
  have D1: "js_div (Fin (of_nat start)) (Fin 60) = Fin (of_nat start / 60)"
    using start_le p40 d_start by (intro js_div_sixty) linarith
  have D2: "js_div (Fin (of_nat end1)) (Fin 60) = Fin (of_nat end1 / 60)"
    using end1_le p40 d_end1 by (intro js_div_sixty) linarith
  have "buildStartHourRange (Fin (of_nat l)) (Fin (of_nat u)) =
      (Fin (of_nat start / 60), Fin (of_nat end1 / 60))"
    unfolding buildStartHourRange_def Let_def BL BU SL A1 SU ST A2 A3 E0 E1 D1 D2 ..
  then show ?thesis
    unfolding Let_def bl_def[symmetric] bu_def[symmetric] sl_def[symmetric] su_def[symmetric]
      start_def[symmetric] end0_def[symmetric] end1_def[symmetric] .
qed

lemma js_of_nat_large:
  assumes "2 ^ 53 \<le> m"
  shows "js_lt (Fin 720) (js_of_nat m)" and "\<not> js_lt (js_of_nat m) (Fin 300)"
proof -
  have "(2::rat) ^ 53 \<le> of_nat m" using assms by (metis numeral_power_le_of_nat_cancel_iff)
  then have "round64 (2 ^ 53) \<le> round64 (of_nat m)" by (rule round64_mono)
  then have v: "(2::rat) ^ 53 \<le> round64 (of_nat m)" by (simp only: round64_pow53)
  have "(720::rat) < 2 ^ 53" by simp
  with v have gt: "720 < round64 (of_nat m)" by linarith
  then have "\<not> round64 (of_nat m) \<le> - (2 ^ 1024)" by simp
  then have "js_of_nat m = PInf \<or> js_of_nat m = Fin (round64 (of_nat m))"
    by (simp add: js_of_nat_def to_double_def Let_def)
  then show "js_lt (Fin 720) (js_of_nat m)" and "\<not> js_lt (js_of_nat m) (Fin 300)"
    using gt by auto
qed

lemma valid_minutes_iff:
  "(js_lt (js_of_nat m) MIN_VALID_MINUTES \<or> js_gt (js_of_nat m) MAX_VALID_MINUTES)
     \<longleftrightarrow> (m < 300 \<or> 720 < m)"
proof (cases "m < 2 ^ 53")
  case True
  have "(of_nat m < (300::rat)) = (m < 300)" "((720::rat) < of_nat m) = (720 < m)"
    using of_nat_less_iff[of m 300, where ?'a = rat] of_nat_less_iff[of 720 m, where ?'a = rat]
    by simp_all
  then show ?thesis
    by (simp add: js_of_nat_exact[OF True] MIN_VALID_MINUTES_def MAX_VALID_MINUTES_def js_gt_def)
next
  case False
  then have l: "2 ^ 53 \<le> m" by simp
  moreover have "(720::nat) < 2 ^ 53" by simp
  ultimately have "720 < m" by linarith
  then show ?thesis
    using js_of_nat_large[OF l] by (simp add: MIN_VALID_MINUTES_def MAX_VALID_MINUTES_def js_gt_def)
qed

lemma filterValidDailyCommits_alt:
  "filterValidDailyCommits getUTCDay cs =
     filter (\<lambda>item. 300 \<le> minutesFromMidnight item \<and> minutesFromMidnight item \<le> 720
                     \<and> 1 \<le> getUTCDay (date item) \<and> getUTCDay (date item) \<le> 5) cs"
  unfolding filterValidDailyCommits_def valid_minutes_iff Let_def
  by (rule filter_cong) auto

lemma valid_samples:
  assumes "m \<in> set (map minutesFromMidnight (filterValidDailyCommits getUTCDay cs))"
  shows "300 \<le> m" and "m \<le> 720"
  using assms by (auto simp: filterValidDailyCommits_alt)

section \<open>Lemmas for the 996 index\<close>

lemma round64_abs_error:
  assumes "0 \<le> v" "v \<le> B" "v = 0 \<or> 1 / 2 ^ 53 \<le> v"
  shows "\<bar>round64 v - v\<bar> \<le> B / 2 ^ 53"
proof (cases "v = 0")
  case True
  then show ?thesis using assms by simp
next
  case False
  then have "1 / 2 ^ 53 \<le> v" using assms(3) by simp
  then have "\<bar>round64 v - v\<bar> \<le> v / 2 ^ 53" by (rule round64_error_pos)
  moreover have "v / 2 ^ 53 \<le> B / 2 ^ 53" using assms(2) by (rule divide_right_mono) simp
  ultimately show ?thesis by linarith
qed

lemma round64_small_power: "k \<le> 1074 \<Longrightarrow> round64 (1 / 2 ^ k) = 1 / 2 ^ k"
  using round64_repr[of 1 k] by simp

lemma round64_half: "\<bar>z\<bar> < 2 ^ 53 \<Longrightarrow> round64 (of_int z / 2) = of_int z / 2"
  using round64_repr[of z 1] by simp

lemma round_sum_exact:
  assumes x: "x < 2 ^ 24" and q: "0 < q" "q < 2 ^ 25" and pq: "p \<le> 2 ^ 24 * q"
  shows "\<lfloor>round64 (of_nat x + round64 (of_nat p / of_nat q)) + 1 / 2\<rfloor>
           = int x + \<lfloor>of_nat p / of_nat q + (1 / 2 :: rat)\<rfloor>"
proof -
  define k :: rat where "k = of_nat p / of_nat q"
  define K where "K = round64 k"
  define v where "v = of_nat x + K"
  define g where "g = \<lfloor>k + 1 / 2\<rfloor>"
  define N where "N = 2 * p + q"
  define D where "D = 2 * q"
  have qr: "(0::rat) < of_nat q" using q by simp
  have Dpos: "0 < D" using q by (simp add: D_def)
  have Dr: "(0::rat) < of_nat D" using Dpos by simp
  have k0: "0 \<le> k" by (simp add: k_def)
  have k24: "k \<le> 2 ^ 24"
  proof -
    have "(of_nat p :: rat) \<le> of_nat (2 ^ 24 * q)" using pq by (simp only: of_nat_le_iff)
    then show ?thesis using qr by (simp add: k_def field_simps)
  qed
  have kND: "k + 1 / 2 = of_nat N / of_nat D"
    using qr by (simp add: k_def N_def D_def field_simps)
  have g_div: "g = int (N div D)"
    unfolding g_def kND by (simp add: floor_divide_of_nat_eq)
  have x24: "(of_nat x :: rat) < 2 ^ 24" using x by (metis of_nat_less_numeral_power_cancel_iff)
  have K0: "0 \<le> K" unfolding K_def using k0 by (rule round64_nonneg)
  have K24: "K \<le> 2 ^ 24"
  proof -
    have "round64 k \<le> round64 (2 ^ 24)" using k24 by (rule round64_mono)
    moreover have "round64 (2 ^ 24) = (2 ^ 24 :: rat)" using round64_of_nat[of "2 ^ 24"] by simp
    ultimately show ?thesis by (simp add: K_def)
  qed
  show ?thesis
  proof (cases "N mod D = 0")
    case True
    then have "of_nat N / (of_nat D :: rat) = of_nat (N div D)"
      using Dr by (metis dvd_div_mult_self mod_0_imp_dvd nonzero_mult_div_cancel_right of_nat_mult less_numeral_extra(3))
    then have kg: "k + 1 / 2 = of_int g" using kND g_div by simp
    then have kh: "k = of_int (2 * g - 1) / 2" by simp
    have g_le: "0 \<le> g" "g \<le> 2 ^ 24 + 1"
    proof -
      show "0 \<le> g" unfolding g_def using k0 by simp
      have "of_int g \<le> (2 ^ 24 + 1 / 2 :: rat)" using kg k24 by linarith
      then have "(of_int g :: rat) \<le> of_int (2 ^ 24 + 1)" by simp
      then show "g \<le> 2 ^ 24 + 1" by (simp only: of_int_le_iff)
    qed
    have "\<bar>2 * g - 1\<bar> < 2 ^ 53" using g_le by simp
    then have "round64 (of_int (2 * g - 1) / 2) = of_int (2 * g - 1) / 2"
      by (rule round64_half)
    then have KK: "K = k" unfolding K_def kh .
    have vh: "v = of_int (2 * int x + 2 * g - 1) / 2" unfolding v_def KK kh by simp
    have "\<bar>2 * int x + 2 * g - 1\<bar> < 2 ^ 53" using g_le x by simp
    then have "round64 (of_int (2 * int x + 2 * g - 1) / 2) = of_int (2 * int x + 2 * g - 1) / 2"
      by (rule round64_half)
    then have "round64 v = v" unfolding vh .
    then have "round64 v + 1 / 2 = of_int (int x + g)" unfolding vh by simp
    then have "\<lfloor>round64 v + 1 / 2\<rfloor> = int x + g" by (simp only: floor_of_int)
    then show ?thesis unfolding v_def K_def k_def g_def .
  next
    case False
    then have m1: "1 \<le> N mod D" by simp
    have m2: "N mod D + 1 \<le> D" using mod_less_divisor[OF Dpos, of N] by simp
    have Ndec: "(of_nat N :: rat) = of_nat (N div D) * of_nat D + of_nat (N mod D)"
      by (metis div_mult_mod_eq of_nat_add of_nat_mult)
    have frac: "k + 1 / 2 = of_int g + of_nat (N mod D) / of_nat D"
      unfolding kND g_div using Dr Ndec by (simp add: field_simps)
    have D26: "(of_nat D :: rat) < 2 ^ 26"
    proof -
      have "D < 2 ^ 26" using q by (simp add: D_def)
      then show ?thesis by (metis of_nat_less_numeral_power_cancel_iff)
    qed
    have invD: "1 / 2 ^ 26 < 1 / (of_nat D :: rat)"
      using D26 Dr by (simp add: field_simps)
    have lo: "of_int g + 1 / of_nat D \<le> k + 1 / 2"
    proof -
      have "(1::rat) \<le> of_nat (N mod D)" using m1 by simp
      then have "1 / of_nat D \<le> of_nat (N mod D) / (of_nat D :: rat)"
        using Dr by (simp add: divide_right_mono)
      then show ?thesis using frac by linarith
    qed
    have hi: "k + 1 / 2 \<le> of_int g + 1 - 1 / of_nat D"
    proof -
      have "(of_nat (N mod D + 1) :: rat) \<le> of_nat D" using m2 by (simp only: of_nat_le_iff)
      then have "of_nat (N mod D) / (of_nat D :: rat) \<le> 1 - 1 / of_nat D"
        using Dr by (simp add: field_simps)
      then show ?thesis using frac by linarith
    qed
    have kpos: "k = 0 \<or> 1 / 2 ^ 53 \<le> k"
    proof (cases "p = 0")
      case True then show ?thesis by (simp add: k_def)
    next
      case False
      then have "(1::rat) \<le> of_nat p" by simp
      then have "1 / of_nat q \<le> k" unfolding k_def using qr by (simp add: divide_right_mono)
      moreover have "(of_nat q :: rat) < 2 ^ 25" using q(2) by (metis of_nat_less_numeral_power_cancel_iff)
      then have "1 / 2 ^ 25 < 1 / (of_nat q :: rat)" using qr by (simp add: field_simps)
      moreover have "(1::rat) / 2 ^ 53 \<le> 1 / 2 ^ 25" by simp
      ultimately show ?thesis by linarith
    qed
    have eK: "\<bar>K - k\<bar> \<le> 2 ^ 24 / 2 ^ 53"
      unfolding K_def using k0 k24 kpos by (rule round64_abs_error)
    have v0: "0 \<le> v" using K0 by (simp add: v_def)
    have v25: "v \<le> 2 ^ 25" using x24 K24 by (simp add: v_def)
    have vpos: "v = 0 \<or> 1 / 2 ^ 53 \<le> v"
    proof (cases "x = 0")
      case False
      then have "(1::rat) \<le> of_nat x" by simp
      then have "1 \<le> v" using K0 by (simp add: v_def)
      then show ?thesis by simp
    next
      case True
      show ?thesis
      proof (cases "p = 0")
        case True
        then show ?thesis using \<open>x = 0\<close> by (simp add: v_def K_def k_def)
      next
        case False
        then have "(1::rat) \<le> of_nat p" by simp
        then have "1 / of_nat q \<le> k" unfolding k_def using qr by (simp add: divide_right_mono)
        moreover have "(of_nat q :: rat) < 2 ^ 25" using q(2) by (metis of_nat_less_numeral_power_cancel_iff)
        then have "1 / 2 ^ 25 < 1 / (of_nat q :: rat)" using qr by (simp add: field_simps)
        ultimately have "1 / 2 ^ 25 \<le> k" by linarith
        then have "round64 (1 / 2 ^ 25) \<le> round64 k" by (rule round64_mono)
        moreover have "round64 (1 / 2 ^ 25) = (1 / 2 ^ 25 :: rat)" by (rule round64_small_power) simp
        ultimately have "1 / 2 ^ 25 \<le> K" unfolding K_def by (simp only:)
        moreover have "(1::rat) / 2 ^ 53 \<le> 1 / 2 ^ 25" by simp
        ultimately show ?thesis using \<open>x = 0\<close> by (simp add: v_def)
      qed
    qed
    have ev: "\<bar>round64 v - v\<bar> \<le> 2 ^ 25 / 2 ^ 53"
      using v0 v25 vpos by (rule round64_abs_error)
    have small: "(2::rat) ^ 24 / 2 ^ 53 + 2 ^ 25 / 2 ^ 53 < 1 / 2 ^ 26" by simp
    have tot: "\<bar>round64 v - (of_nat x + k)\<bar> < 1 / of_nat D"
      using eK ev small invD unfolding v_def by linarith
    have xg: "(of_int (int x + g) :: rat) = of_nat x + of_int g" by simp
    have "of_int (int x + g) \<le> round64 v + 1 / 2" using tot lo xg by linarith
    moreover have "round64 v + 1 / 2 < of_int (int x + g) + 1"
      using tot hi xg by linarith
    ultimately have "\<lfloor>round64 v + 1 / 2\<rfloor> = int x + g" by (intro floor_unique) simp_all
    then show ?thesis unfolding v_def K_def k_def g_def .
  qed
qed

lemma pow24_mult: "a < 2 ^ 24 \<Longrightarrow> b < 2 ^ 24 \<Longrightarrow> a * b < (2::nat) ^ 48"
proof -
  assume "a < 2 ^ 24" "b < 2 ^ 24"
  then have "a * b < 2 ^ 24 * 2 ^ 24" by (intro mult_strict_mono) simp_all
  then show ?thesis by simp
qed

lemma pow24_small:
  assumes "a < (2::nat) ^ 24"
  shows "a < 2 ^ 53" and "a < 2 ^ 25"
proof -
  have "(2::nat) ^ 24 \<le> 2 ^ 53" "(2::nat) ^ 24 \<le> 2 ^ 25" by simp_all
  then show "a < 2 ^ 53" and "a < 2 ^ 25" using assms by linarith+
qed

lemma correction_bounds:
  assumes "0 < m + n"
  shows "int x \<le> correction y x m n" and "correction y x m n \<le> int x + int y"
proof -
  let ?k = "of_nat (y * n) / of_nat (m + n) :: rat"
  have q: "(0::rat) < of_nat (m + n)" using assms by (simp only: of_nat_0_less_iff)
  have "0 \<le> ?k" by simp
  then have "0 \<le> \<lfloor>?k + 1 / 2\<rfloor>" by simp
  then show "int x \<le> correction y x m n" by (simp add: correction_def)
  have "y * n \<le> y * (m + n)" by simp
  then have "(of_nat (y * n) :: rat) \<le> of_nat (y * (m + n))" by (simp only: of_nat_le_iff)
  then have "?k \<le> of_nat y" using q by (simp add: field_simps)
  then have "?k + 1 / 2 < of_int (int y) + 1" by simp
  then have "\<lfloor>?k + 1 / 2\<rfloor> < int y + 1" by (simp only: floor_less_iff of_int_add of_int_1)
  then show "correction y x m n \<le> int x + int y" by (simp add: correction_def)
qed

lemma overTimeAmendCount_exact:
  assumes "y < 2 ^ 24" "x < 2 ^ 24" "m < 2 ^ 24" "n < 2 ^ 24" "0 < m + n"
  shows "js_round (js_add (js_of_nat x)
            (js_div (js_mul (js_of_nat y) (js_of_nat n)) (js_add (js_of_nat m) (js_of_nat n))))
         = Fin (of_int (correction y x m n))"
proof -
  let ?p = "y * n" and ?q = "m + n"
  let ?K = "round64 (of_nat ?p / of_nat ?q)"
  have yn: "?p < 2 ^ 53"
  proof -
    have "(2::nat) ^ 48 \<le> 2 ^ 53" by simp
    then show ?thesis using pow24_mult[OF assms(1,4)] by linarith
  qed
  have mn: "?q < 2 ^ 53" and q25: "?q < 2 ^ 25" using assms(3,4) by simp_all
  have e1: "js_mul (js_of_nat y) (js_of_nat n) = Fin (of_nat ?p)"
    using yn by (simp only: js_of_nat_exact[OF pow24_small(1)[OF assms(1)]]
        js_of_nat_exact[OF pow24_small(1)[OF assms(4)]] js_mul_nat)
  have e2: "js_add (js_of_nat m) (js_of_nat n) = Fin (of_nat ?q)"
    using mn by (simp only: js_of_nat_exact[OF pow24_small(1)[OF assms(3)]]
        js_of_nat_exact[OF pow24_small(1)[OF assms(4)]] js_add_nat)
  have e3: "js_div (Fin (of_nat ?p)) (Fin (of_nat ?q)) = Fin ?K"
    using yn assms(5) by (rule js_div_nat)
  have K0: "0 \<le> ?K" by (intro round64_nonneg) simp
  have K24: "?K \<le> 2 ^ 24"
  proof -
    have q: "(0::rat) < of_nat ?q" using assms(5) by (simp only: of_nat_0_less_iff)
    have "?p \<le> 2 ^ 24 * ?q"
    proof -
      have "y * n \<le> 2 ^ 24 * n" using assms(1) by simp
      also have "\<dots> \<le> 2 ^ 24 * (m + n)" by simp
      finally show ?thesis .
    qed
    then have "(of_nat ?p :: rat) \<le> of_nat (2 ^ 24 * ?q)" by (simp only: of_nat_le_iff)
    then have "of_nat ?p / of_nat ?q \<le> (2 ^ 24 :: rat)" using q by (simp add: field_simps)
    then have "?K \<le> round64 (2 ^ 24)" by (rule round64_mono)
    moreover have "round64 (2 ^ 24) = (2 ^ 24 :: rat)" using round64_of_nat[of "2 ^ 24"] by simp
    ultimately show ?thesis by simp
  qed
  have x24: "(of_nat x :: rat) < 2 ^ 24" using assms(2) by (metis of_nat_less_numeral_power_cancel_iff)
  have "\<bar>of_nat x + ?K\<bar> \<le> 2 ^ 53" using K0 K24 x24 by simp
  then have e4: "js_add (Fin (of_nat x)) (Fin ?K) = Fin (round64 (of_nat x + ?K))"
    by (simp add: to_double_Fin)
  have pq: "?p \<le> 2 ^ 24 * ?q"
  proof -
    have "y * n \<le> 2 ^ 24 * n" using assms(1) by simp
    also have "\<dots> \<le> 2 ^ 24 * (m + n)" by simp
    finally show ?thesis .
  qed
  have e5: "\<lfloor>round64 (of_nat x + ?K) + 1 / 2\<rfloor> = correction y x m n"
    unfolding correction_def using assms(2,5) q25 pq by (rule round_sum_exact)
  show ?thesis
    unfolding e1 e2 e3 js_of_nat_exact[OF pow24_small(1)[OF assms(2)]] e4
    by (simp only: js_round.simps e5)
qed

lemma percentCeil_mono:
  assumes "of_int c / of_nat t \<le> (of_int c' / of_nat t' :: rat)"
  shows "percentCeil c t \<le> percentCeil c' t'"
proof -
  have "round64 (of_int c / of_nat t) \<le> round64 (of_int c' / of_nat t')"
    using assms by (rule round64_mono)
  then have "round64 (of_int c / of_nat t) * 100 \<le> round64 (of_int c' / of_nat t') * 100"
    by simp
  then have "round64 (round64 (of_int c / of_nat t) * 100)
      \<le> round64 (round64 (of_int c' / of_nat t') * 100)" by (rule round64_mono)
  then show ?thesis unfolding percentCeil_def by (rule ceiling_mono)
qed

lemma percentCeil_zero: "percentCeil 0 t = 0"
  by (simp add: percentCeil_def)

lemma percentCeil_le:
  assumes "0 \<le> c" "c \<le> int t" "0 < t"
  shows "0 \<le> percentCeil c t" and "percentCeil c t \<le> 100"
proof -
  have tpos: "(0::rat) < of_nat t" using assms(3) by simp
  have "(of_int c :: rat) \<le> of_int (int t)" using assms(2) by (simp only: of_int_le_iff)
  then have r: "of_int c / of_nat t \<le> (1::rat)" using tpos by simp
  have r0: "0 \<le> (of_int c / of_nat t :: rat)" using assms(1) by simp
  have a: "0 \<le> round64 (of_int c / of_nat t)" using r0 by (rule round64_nonneg)
  have "round64 (of_int c / of_nat t) \<le> round64 1" using r by (rule round64_mono)
  then have b: "round64 (of_int c / of_nat t) \<le> 1" using round64_of_nat[of 1] by simp
  have "0 \<le> round64 (of_int c / of_nat t) * 100" using a by simp
  then have "0 \<le> round64 (round64 (of_int c / of_nat t) * 100)" by (rule round64_nonneg)
  then have "- 1 < round64 (round64 (of_int c / of_nat t) * 100)" by simp
  then show "0 \<le> percentCeil c t" unfolding percentCeil_def by (simp add: le_ceiling_iff)
  have "round64 (of_int c / of_nat t) * 100 \<le> 100" using b by simp
  then have "round64 (round64 (of_int c / of_nat t) * 100) \<le> round64 100" by (rule round64_mono)
  then have "round64 (round64 (of_int c / of_nat t) * 100) \<le> 100"
    using round64_of_nat[of 100] by simp
  then show "percentCeil c t \<le> 100" unfolding percentCeil_def by (simp add: ceiling_le_iff)
qed

lemma percentCeil_pos:
  assumes "1 \<le> c" "0 < t" "t < 2 ^ 25"
  shows "1 \<le> percentCeil c t"
proof -
  have tpos: "(0::rat) < of_nat t" using assms(2) by simp
  have "(of_nat t :: rat) < 2 ^ 25" using assms(3) by (metis of_nat_less_numeral_power_cancel_iff)
  then have "1 / 2 ^ 25 < 1 / (of_nat t :: rat)" using tpos by (simp add: field_simps)
  moreover have "(1::rat) \<le> of_int c" using assms(1) by simp
  then have "1 / of_nat t \<le> (of_int c / of_nat t :: rat)" using tpos by (simp add: divide_right_mono)
  ultimately have "1 / 2 ^ 25 \<le> (of_int c / of_nat t :: rat)" by linarith
  then have "round64 (1 / 2 ^ 25) \<le> round64 (of_int c / of_nat t)" by (rule round64_mono)
  moreover have "round64 (1 / 2 ^ 25) = (1 / 2 ^ 25 :: rat)" by (rule round64_small_power) simp
  ultimately have "1 / 2 ^ 25 \<le> round64 (of_int c / of_nat t)" by (simp only:)
  then have "of_int 25 / 2 ^ 23 \<le> round64 (of_int c / of_nat t) * 100" by simp
  then have "round64 (of_int 25 / 2 ^ 23) \<le> round64 (round64 (of_int c / of_nat t) * 100)"
    by (rule round64_mono)
  moreover have "round64 (of_int 25 / 2 ^ 23) = (of_int 25 / 2 ^ 23 :: rat)"
    by (rule round64_repr) simp_all
  ultimately have "of_int 25 / 2 ^ 23 \<le> round64 (round64 (of_int c / of_nat t) * 100)"
    by (simp only:)
  then have "0 < round64 (round64 (of_int c / of_nat t) * 100)" by simp
  then show ?thesis unfolding percentCeil_def by (simp add: le_ceiling_iff)
qed

lemma primaryRadio_value:
  assumes "y < 2 ^ 24" "x < 2 ^ 24" "m < 2 ^ 24" "n < 2 ^ 24" "0 < m + n" "0 < x + y"
  shows "primaryRadio (js_of_nat y) (js_of_nat x) (js_of_nat m) (js_of_nat n)
         = Fin (of_int (percentCeil (correction y x m n) (y + x)))"
proof -
  let ?c = "correction y x m n" and ?t = "y + x"
  have t53: "?t < 2 ^ 53" using assms(1,2) by simp
  have t0: "0 < ?t" using assms(6) by linarith
  then have tpos: "(0::rat) < of_nat ?t" by (simp only: of_nat_0_less_iff)
  have e1: "js_add (js_of_nat y) (js_of_nat x) = Fin (of_nat ?t)"
    using t53 by (simp only: js_of_nat_exact[OF pow24_small(1)[OF assms(1)]]
        js_of_nat_exact[OF pow24_small(1)[OF assms(2)]] js_add_nat)
  have c0: "0 \<le> ?c" using correction_bounds(1)[OF assms(5), of x y] by simp
  have ct: "?c \<le> int ?t" using correction_bounds(2)[OF assms(5), of y x] by simp
  have "(of_int ?c :: rat) \<le> of_int (int ?t)" using ct by (simp only: of_int_le_iff)
  then have r1: "of_int ?c / of_nat ?t \<le> (1::rat)" using tpos by simp
  have r0: "0 \<le> (of_int ?c / of_nat ?t :: rat)" using c0 by simp
  have "\<bar>of_int ?c / of_nat ?t :: rat\<bar> \<le> 2 ^ 53" using r0 r1 by simp
  then have d: "to_double (of_int ?c / of_nat ?t) = Fin (round64 (of_int ?c / of_nat ?t))"
    by (rule to_double_Fin)
  have tn: "(of_nat ?t :: rat) \<noteq> 0" using tpos by linarith
  have e2: "js_div (Fin (of_int ?c)) (Fin (of_nat ?t)) = Fin (round64 (of_int ?c / of_nat ?t))"
    by (simp only: js_div.simps tn if_False d)
  have a: "0 \<le> round64 (of_int ?c / of_nat ?t)" using r0 by (rule round64_nonneg)
  have "round64 (of_int ?c / of_nat ?t) \<le> round64 1" using r1 by (rule round64_mono)
  then have b: "round64 (of_int ?c / of_nat ?t) \<le> 1" using round64_of_nat[of 1] by simp
  have "\<bar>round64 (of_int ?c / of_nat ?t) * 100\<bar> \<le> 2 ^ 53" using a b by simp
  then have e3: "js_mul (Fin (round64 (of_int ?c / of_nat ?t))) (Fin 100)
      = Fin (round64 (round64 (of_int ?c / of_nat ?t) * 100))"
    by (simp add: to_double_Fin)
  show ?thesis
    unfolding primaryRadio_def Let_def overTimeAmendCount_exact[OF assms(1-5)] e1 e2 e3
    by (simp only: js_ceil.simps percentCeil_def)
qed

lemma round64_relative:
  assumes "1 / 2 ^ 53 \<le> v"
  shows "999999 / 1000000 * v \<le> round64 v" and "round64 v \<le> 1000001 / 1000000 * v"
proof -
  have "(0::rat) < 1 / 2 ^ 53" by simp
  then have v0: "0 < v" using assms by linarith
  have e: "\<bar>round64 v - v\<bar> \<le> v / 2 ^ 53" using assms by (rule round64_error_pos)
  have "v / 2 ^ 53 \<le> v / 1000000" using v0 by (intro divide_left_mono) simp_all
  with e show "999999 / 1000000 * v \<le> round64 v" and "round64 v \<le> 1000001 / 1000000 * v"
    by linarith+
qed

lemma getUn996Radio_empty:
  assumes "0 < t"
  shows "getUn996Radio [] (Fin (of_nat t)) = Fin (- 100)"
proof -
  have "to_double (- 100) = Fin (of_int (- 100))" by (rule to_double_int_value) simp_all
  then have m: "to_double (- 100) = Fin (- 100)" by simp
  have z: "js_of_nat 0 = Fin 0" using js_of_nat_exact[of 0] by simp
  have "to_double 0 = Fin (of_int 0)" by (rule to_double_int_value) simp_all
  then have z2: "to_double 0 = Fin 0" by simp
  show ?thesis using assms by (simp add: getUn996Radio_def z js_sub_def m z2)
qed

lemma getUn996Radio_sparse:
  assumes t: "0 < t" "t < 2 ^ 25" and L: "0 < length hourList" "length hourList < 9"
  shows "getUn996Radio hourList (Fin (of_nat t))
         = Fin (of_int (\<lceil>100 * of_nat (length hourList) / (9 :: rat)\<rceil> - 100))"
proof -
  define L where "L = length hourList"
  define w :: rat where "w = of_nat t / of_nat L"
  define a where "a = round64 w"
  define b where "b = round64 (a * 9)"
  define u where "u = of_nat t / b"
  define r where "r = round64 u"
  define s where "s = round64 (r * 100)"
  have L1: "0 < L" "L < 9" using L by (simp_all add: L_def)
  have Lr: "(1::rat) \<le> of_nat L" "(of_nat L :: rat) \<le> 8"
  proof -
    show "(1::rat) \<le> of_nat L" using L1(1) by simp
    have "L \<le> 8" using L1(2) by simp
    then have "(of_nat L :: rat) \<le> of_nat 8" by (simp only: of_nat_le_iff)
    then show "(of_nat L :: rat) \<le> 8" by simp
  qed
  have tr: "(1::rat) \<le> of_nat t" "(of_nat t :: rat) < 2 ^ 25"
  proof -
    show "(1::rat) \<le> of_nat t" using t(1) by simp
    show "(of_nat t :: rat) < 2 ^ 25" using t(2) by (metis of_nat_less_numeral_power_cancel_iff)
  qed
  have tw: "of_nat t = of_nat L * w" using Lr by (simp add: w_def)
  have w_lo: "1 / 8 \<le> w"
  proof -
    have "1 / 8 \<le> 1 / (of_nat L :: rat)" using Lr by (simp add: field_simps)
    also have "\<dots> \<le> of_nat t / of_nat L" using tr(1) Lr by (simp add: divide_right_mono)
    finally show ?thesis by (simp add: w_def)
  qed
  have w_hi: "w \<le> 2 ^ 25"
  proof -
    have "of_nat t / of_nat L \<le> (of_nat t :: rat)" using Lr tr by (simp add: field_simps)
    then show ?thesis using tr(2) by (simp add: w_def)
  qed
  have w53: "1 / 2 ^ 53 \<le> w" using w_lo by simp
  have a_b: "999999 / 1000000 * w \<le> a" "a \<le> 1000001 / 1000000 * w"
    unfolding a_def using round64_relative[OF w53] by simp_all
  have a53: "1 / 2 ^ 53 \<le> a * 9" using a_b(1) w_lo by simp
  have b_b: "999999 / 1000000 * (a * 9) \<le> b" "b \<le> 1000001 / 1000000 * (a * 9)"
    unfolding b_def using round64_relative[OF a53] by simp_all
  define c1 :: rat where "c1 = 999999 / 1000000 * (999999 / 1000000) * 9"
  define c2 :: rat where "c2 = 1000001 / 1000000 * (1000001 / 1000000) * 9"
  have b1: "c1 * w \<le> b" using a_b(1) b_b(1) unfolding c1_def by simp
  have b2: "b \<le> c2 * w" using a_b(2) b_b(2) unfolding c2_def by simp
  have c1pos: "0 < c1" and c2pos: "0 < c2" by (simp_all add: c1_def c2_def)
  have wpos: "0 < w" using w_lo by simp
  have bpos: "0 < b"
  proof -
    have "0 < c1 * w" using c1pos wpos by simp
    then show ?thesis using b1 by linarith
  qed
  have u_hi: "u \<le> of_nat L / c1"
  proof -
    have "of_nat L * w / b \<le> of_nat L * w / (c1 * w)"
      using b1 c1pos wpos bpos Lr by (intro divide_left_mono) simp_all
    also have "\<dots> = of_nat L / c1" using wpos by simp
    finally show ?thesis by (simp add: u_def tw)
  qed
  have u_lo: "of_nat L / c2 \<le> u"
  proof -
    have "of_nat L * w / (c2 * w) \<le> of_nat L * w / b"
      using b2 c2pos wpos bpos Lr by (intro divide_left_mono) simp_all
    moreover have "of_nat L * w / (c2 * w) = of_nat L / c2" using wpos by simp
    ultimately show ?thesis by (simp add: u_def tw)
  qed
  have u_b: "11111 / 100000 * of_nat L \<le> u" "u \<le> 111112 / 1000000 * of_nat L"
  proof -
    have "11111 / 100000 * of_nat L \<le> of_nat L / c2" using Lr unfolding c2_def by simp
    then show "11111 / 100000 * of_nat L \<le> u" using u_lo by linarith
    have "of_nat L / c1 \<le> 111112 / 1000000 * of_nat L" using Lr unfolding c1_def by simp
    then show "u \<le> 111112 / 1000000 * of_nat L" using u_hi by linarith
  qed
  have u53: "1 / 2 ^ 53 \<le> u" using u_b(1) Lr by simp
  have r_b: "999999 / 1000000 * u \<le> r" "r \<le> 1000001 / 1000000 * u"
    unfolding r_def using round64_relative[OF u53] by simp_all
  have r53: "1 / 2 ^ 53 \<le> r * 100" using r_b(1) u_b(1) Lr by simp
  have s_b: "999999 / 1000000 * (r * 100) \<le> s" "s \<le> 1000001 / 1000000 * (r * 100)"
    unfolding s_def using round64_relative[OF r53] by simp_all
  have s1: "1111 / 100 * of_nat L \<le> s" using s_b(1) r_b(1) u_b(1) Lr by simp
  have s2: "s \<le> 11112 / 1000 * of_nat L" using s_b(2) r_b(2) u_b(2) Lr by simp
  have ceil_s: "\<lceil>s\<rceil> = \<lceil>100 * of_nat L / (9 :: rat)\<rceil>"
  proof -
    consider "L = 1" | "L = 2" | "L = 3" | "L = 4" | "L = 5" | "L = 6" | "L = 7" | "L = 8"
      using L1 by linarith
    then show ?thesis
    proof cases
      case 1 then have "11 < s" "s \<le> 12" using s1 s2 by simp_all
      then have "\<lceil>s\<rceil> = 12" by (intro ceiling_unique) simp_all
      then show ?thesis using 1 by simp
    next
      case 2 then have "22 < s" "s \<le> 23" using s1 s2 by simp_all
      then have "\<lceil>s\<rceil> = 23" by (intro ceiling_unique) simp_all
      then show ?thesis using 2 by simp
    next
      case 3 then have "33 < s" "s \<le> 34" using s1 s2 by simp_all
      then have "\<lceil>s\<rceil> = 34" by (intro ceiling_unique) simp_all
      then show ?thesis using 3 by simp
    next
      case 4 then have "44 < s" "s \<le> 45" using s1 s2 by simp_all
      then have "\<lceil>s\<rceil> = 45" by (intro ceiling_unique) simp_all
      then show ?thesis using 4 by simp
    next
      case 5 then have "55 < s" "s \<le> 56" using s1 s2 by simp_all
      then have "\<lceil>s\<rceil> = 56" by (intro ceiling_unique) simp_all
      then show ?thesis using 5 by simp
    next
      case 6 then have "66 < s" "s \<le> 67" using s1 s2 by simp_all
      then have "\<lceil>s\<rceil> = 67" by (intro ceiling_unique) simp_all
      then show ?thesis using 6 by simp
    next
      case 7 then have "77 < s" "s \<le> 78" using s1 s2 by simp_all
      then have "\<lceil>s\<rceil> = 78" by (intro ceiling_unique) simp_all
      then show ?thesis using 7 by simp
    next
      case 8 then have "88 < s" "s \<le> 89" using s1 s2 by simp_all
      then have "\<lceil>s\<rceil> = 89" by (intro ceiling_unique) simp_all
      then show ?thesis using 8 by simp
    qed
  qed
  have s_rng: "0 < s" "s \<le> 100" using s1 s2 Lr by simp_all
  \<comment> \<open>the operations of the source, one by one\<close>
  have L53: "L < 2 ^ 53" using L1(2) by simp
  have t53: "t < 2 ^ 53" using pow24_small t(2) by simp
  have o1: "js_div (Fin (of_nat t)) (js_of_nat (length hourList)) = Fin a"
    unfolding L_def[symmetric] js_of_nat_exact[OF L53] a_def w_def
    using t53 L1(1) by (rule js_div_nat)
  have "\<bar>a * 9\<bar> \<le> 2 ^ 53" using a_b w_lo w_hi by simp
  then have o2: "js_mul (Fin a) (Fin 9) = Fin b" by (simp add: to_double_Fin b_def)
  have "\<bar>u\<bar> \<le> 2 ^ 53" using u_b Lr by simp
  then have "to_double u = Fin r" by (simp add: to_double_Fin r_def)
  then have o3: "js_div (Fin (of_nat t)) (Fin b) = Fin r" using bpos by (simp add: u_def)
  have "\<bar>r * 100\<bar> \<le> 2 ^ 53" using r_b u_b Lr by simp
  then have o4: "js_mul (Fin r) (Fin 100) = Fin s" by (simp add: to_double_Fin s_def)
  have cs: "0 < \<lceil>s\<rceil>" "\<lceil>s\<rceil> \<le> 100" using s_rng by (simp_all add: ceiling_le_iff)
  moreover have "(100::int) < 2 ^ 53" by simp
  ultimately have "\<bar>\<lceil>s\<rceil> - 100\<bar> < 2 ^ 53" by linarith
  moreover have "of_int \<lceil>s\<rceil> + - (100 :: rat) = of_int (\<lceil>s\<rceil> - 100)" by simp
  ultimately have "to_double (of_int \<lceil>s\<rceil> + - 100) = Fin (of_int (\<lceil>s\<rceil> - 100))"
    by (intro to_double_int_value)
  then have o5: "js_sub (Fin (of_int \<lceil>s\<rceil>)) (Fin 100) = Fin (of_int (\<lceil>s\<rceil> - 100))"
    by (simp add: js_sub_def)
  have "getUn996Radio hourList (Fin (of_nat t)) = js_sub (Fin (of_int \<lceil>s\<rceil>)) (Fin 100)"
    unfolding getUn996Radio_def Let_def o1 o2 o3 o4 js_ceil.simps ..
  also have "\<dots> = Fin (of_int (\<lceil>s\<rceil> - 100))" by (rule o5)
  finally show ?thesis unfolding ceil_s L_def .
qed

lemma getUn996Radio_value:
  assumes "0 < t" "t < 2 ^ 25" "length hourList < 9"
  shows "getUn996Radio hourList (Fin (of_nat t))
         = Fin (of_int (\<lceil>100 * of_nat (length hourList) / (9 :: rat)\<rceil> - 100))"
proof (cases "hourList = []")
  case True
  then show ?thesis using getUn996Radio_empty[OF assms(1)] by simp
next
  case False
  then have "0 < length hourList" by simp
  then show ?thesis using assms by (intro getUn996Radio_sparse)
qed

lemma under_saturation_negative:
  assumes "length hourList < 9"
  shows "\<lceil>100 * of_nat (length hourList) / (9 :: rat)\<rceil> - 100 \<le> - 11"
    and "- 100 \<le> \<lceil>100 * of_nat (length hourList) / (9 :: rat)\<rceil> - 100"
proof -
  have "length hourList \<le> 8" using assms by simp
  then have "(of_nat (length hourList) :: rat) \<le> of_nat 8" by (simp only: of_nat_le_iff)
  then have "100 * of_nat (length hourList) / (9 :: rat) \<le> of_int 89" by simp
  then have "\<lceil>100 * of_nat (length hourList) / (9 :: rat)\<rceil> \<le> 89" by (simp only: ceiling_le_iff)
  then show "\<lceil>100 * of_nat (length hourList) / (9 :: rat)\<rceil> - 100 \<le> - 11" by simp
  have "0 \<le> 100 * of_nat (length hourList) / (9 :: rat)" by simp
  then have "0 \<le> \<lceil>100 * of_nat (length hourList) / (9 :: rat)\<rceil>" by (simp add: le_ceiling_iff)
  then show "- 100 \<le> \<lceil>100 * of_nat (length hourList) / (9 :: rat)\<rceil> - 100" by simp
qed

lemma js_zero: "js_of_nat 0 = Fin 0" "to_double 0 = Fin 0"
  using js_of_nat_exact[of 0] to_double_of_int[of 0] by simp_all

lemma floor_half: "\<lfloor>(1 :: rat) / 2\<rfloor> = 0" "\<lfloor>(0 :: rat) + 1 / 2\<rfloor> = 0"
  by (rule floor_unique; simp)+

lemma primaryRadio_no_days:
  assumes "y < 2 ^ 24" "x < 2 ^ 24"
  shows "primaryRadio (js_of_nat y) (js_of_nat x) (js_of_nat 0) (js_of_nat 0) = NaN"
proof -
  have "js_div (js_mul (Fin (of_nat y)) (Fin 0)) (js_add (Fin 0) (Fin 0)) = NaN"
    by (simp add: js_zero)
  then show ?thesis
    by (simp add: primaryRadio_def js_zero js_of_nat_exact[OF pow24_small(1)[OF assms(1)]]
        js_of_nat_exact[OF pow24_small(1)[OF assms(2)]])
qed

lemma primaryRadio_no_commits:
  assumes "m < 2 ^ 24" "n < 2 ^ 24"
  shows "primaryRadio (js_of_nat 0) (js_of_nat 0) (js_of_nat m) (js_of_nat n) = NaN"
proof (cases "m + n = 0")
  case True
  then have "m = 0" "n = 0" by simp_all
  then show ?thesis using primaryRadio_no_days[of 0 0] by simp
next
  case False
  have mn: "js_add (Fin (of_nat m)) (Fin (of_nat n)) = Fin (of_nat (m + n))"
    using assms by (intro js_add_nat) simp
  have nz: "(of_nat (m + n) :: rat) \<noteq> 0" using False by (simp only: of_nat_eq_0_iff) simp
  have d: "js_div (Fin 0) (Fin (of_nat (m + n))) = Fin 0"
    using nz by (simp add: js_zero del: of_nat_add)
  show ?thesis
    unfolding primaryRadio_def Let_def js_zero
      js_of_nat_exact[OF pow24_small(1)[OF assms(1)]] js_of_nat_exact[OF pow24_small(1)[OF assms(2)]] mn
    by (simp add: js_zero floor_half d del: of_nat_add)
qed

lemma js_eq_zero: "js_eq v (Fin 0) \<longleftrightarrow> v = Fin 0"
  by (cases v) simp_all

lemma js_mul_three:
  assumes "\<bar>v\<bar> \<le> 100"
  shows "js_mul (Fin (of_int v)) (Fin 3) = Fin (of_int (3 * v))"
proof -
  have "\<bar>3 * v\<bar> < 2 ^ 53" using assms by simp
  moreover have "(of_int v * 3 :: rat) = of_int (3 * v)" by simp
  ultimately have "to_double (of_int v * 3) = Fin (of_int (3 * v))" by (intro to_double_int_value)
  then show ?thesis by simp
qed

lemma calculate996Index_undefined:
  assumes "y < 2 ^ 24" "x < 2 ^ 24" "m < 2 ^ 24" "n < 2 ^ 24" "m + n = 0 \<or> x + y = 0"
  shows "calculate996Index (workTimeData y x m n hourList)
         = Inr \<lparr>index996 = NaN, index996Str = Extreme, overTimeRadio = NaN\<rparr>"
proof -
  have "primaryRadio (js_of_nat y) (js_of_nat x) (js_of_nat m) (js_of_nat n) = NaN"
    using assms primaryRadio_no_days[of y x] primaryRadio_no_commits[of m n] by auto
  then show ?thesis
    by (simp add: calculate996Index_def workTimeData_def generateDescription_def js_le_def)
qed

lemma calculate996Index_defined:
  assumes "y < 2 ^ 24" "x < 2 ^ 24" "m < 2 ^ 24" "n < 2 ^ 24" "0 < m + n" "0 < x + y"
  shows "calculate996Index (workTimeData y x m n hourList) =
     (let p = percentCeil (correction y x m n) (y + x);
          r = (if p = 0 \<and> length hourList < 9
               then \<lceil>100 * of_nat (length hourList) / (9 :: rat)\<rceil> - 100 else p)
      in Inr \<lparr>index996 = Fin (of_int (3 * r)),
               index996Str = generateDescription (Fin (of_int (3 * r))),
               overTimeRadio = Fin (of_int r)\<rparr>)"
proof -
  define p where "p = percentCeil (correction y x m n) (y + x)"
  define u where "u = \<lceil>100 * of_nat (length hourList) / (9 :: rat)\<rceil> - 100"
  have P: "primaryRadio (js_of_nat y) (js_of_nat x) (js_of_nat m) (js_of_nat n) = Fin (of_int p)"
    unfolding p_def using assms by (rule primaryRadio_value)
  have "y + x < 2 ^ 25" using assms(1,2) by simp
  moreover have "(2::nat) ^ 25 \<le> 2 ^ 53" by simp
  ultimately have "y + x < 2 ^ 53" by linarith
  then have t: "js_add (js_of_nat y) (js_of_nat x) = Fin (of_nat (y + x))"
    unfolding js_of_nat_exact[OF pow24_small(1)[OF assms(1)]]
        js_of_nat_exact[OF pow24_small(1)[OF assms(2)]] by (rule js_add_nat)
  have t25: "y + x < 2 ^ 25" "0 < y + x" using assms(1,2,6) by auto
  have c0: "0 \<le> correction y x m n" using correction_bounds(1)[OF assms(5), of x y] by simp
  have ct: "correction y x m n \<le> int (y + x)" using correction_bounds(2)[OF assms(5), of y x] by simp
  have pr: "0 \<le> p" "p \<le> 100" unfolding p_def using percentCeil_le[OF c0 ct t25(2)] by simp_all
  have U: "length hourList < 9 \<Longrightarrow> getUn996Radio hourList (Fin (of_nat (y + x))) = Fin (of_int u)"
    unfolding u_def using t25 by (intro getUn996Radio_value) simp_all
  have ur: "length hourList < 9 \<Longrightarrow> \<bar>u\<bar> \<le> 100"
    unfolding u_def using under_saturation_negative[of hourList] by linarith
  show ?thesis
  proof (cases "p = 0 \<and> length hourList < 9")
    case True
    then have L: "length hourList < 9" by simp
    have "calculate996Index (workTimeData y x m n hourList) =
        Inr \<lparr>index996 = js_mul (Fin (of_int u)) (Fin 3),
              index996Str = generateDescription (js_mul (Fin (of_int u)) (Fin 3)),
              overTimeRadio = Fin (of_int u)\<rparr>"
      using True by (simp add: calculate996Index_def workTimeData_def P t U[OF L] js_eq_zero Let_def
          del: of_nat_add)
    then show ?thesis
      unfolding Let_def p_def[symmetric] u_def[symmetric] js_mul_three[OF ur[OF L]]
      using True by simp
  next
    case False
    have "calculate996Index (workTimeData y x m n hourList) =
        Inr \<lparr>index996 = js_mul (Fin (of_int p)) (Fin 3),
              index996Str = generateDescription (js_mul (Fin (of_int p)) (Fin 3)),
              overTimeRadio = Fin (of_int p)\<rparr>"
      using False by (auto simp add: calculate996Index_def workTimeData_def P t js_eq_zero Let_def
          simp del: of_nat_add)
    moreover have "\<bar>p\<bar> \<le> 100" using pr by simp
    ultimately have "calculate996Index (workTimeData y x m n hourList) =
        Inr \<lparr>index996 = Fin (of_int (3 * p)),
              index996Str = generateDescription (Fin (of_int (3 * p))),
              overTimeRadio = Fin (of_int p)\<rparr>"
      by (simp only: js_mul_three)
    then show ?thesis
      unfolding Let_def p_def[symmetric] u_def[symmetric]
      using False by (simp only: if_False)
  qed
qed

lemma ratio_mono:
  assumes "x \<le> x'" "g \<le> int y" "0 < x + y"
  shows "of_int (int x + g) / of_nat (y + x) \<le> (of_int (int x' + g) / of_nat (y + x') :: rat)"
proof -
  define X :: rat where "X = of_nat x"
  define D :: rat where "D = of_nat (x' - x)"
  define G :: rat where "G = of_int g"
  define Y :: rat where "Y = of_nat y"
  have D0: "0 \<le> D" by (simp add: D_def)
  have GY: "G \<le> Y"
  proof -
    have "(of_int g :: rat) \<le> of_int (int y)" using assms(2) by (simp only: of_int_le_iff)
    then show ?thesis by (simp add: G_def Y_def)
  qed
  have b: "0 < Y + X"
  proof -
    have "(0::rat) < of_nat (x + y)" using assms(3) by (simp only: of_nat_0_less_iff)
    then show ?thesis by (simp add: X_def Y_def add.commute)
  qed
  have d: "0 < Y + (X + D)" using b D0 by linarith
  have x': "(of_nat x' :: rat) = X + D" using assms(1) by (simp add: X_def D_def)
  have "0 \<le> D * (Y - G)" using D0 GY by simp
  then have "(X + G) * (Y + (X + D)) \<le> (X + D + G) * (Y + X)" by (simp add: algebra_simps)
  then have "(X + G) / (Y + X) \<le> (X + D + G) / (Y + (X + D))"
    using b d by (simp add: field_simps)
  then show ?thesis by (simp add: X_def[symmetric] G_def[symmetric] Y_def[symmetric] x')
qed

lemma primaryRadio_idle: "primaryRadio (js_of_nat 10) (js_of_nat 0) (js_of_nat 10) (js_of_nat 0) = Fin 0"
proof -
  have "correction 10 0 10 0 = 0" by (simp add: correction_def floor_half)
  then show ?thesis using primaryRadio_value[of 10 0 10 0] by (simp add: percentCeil_zero)
qed

lemma js_lt_NaN: "\<not> js_lt a NaN"
  by (cases a) simp_all

lemma radio_mono:
  assumes "y < 2 ^ 24" "x' < 2 ^ 24" "0 < m + n" "0 < x + y" "x \<le> x'"
  shows "percentCeil (correction y x m n) (y + x) \<le> percentCeil (correction y x' m n) (y + x')"
proof -
  define g where "g = \<lfloor>of_nat (y * n) / of_nat (m + n) + (1 / 2 :: rat)\<rfloor>"
  have c: "correction y x m n = int x + g" "correction y x' m n = int x' + g"
    by (simp_all add: correction_def g_def)
  have "correction y 0 m n \<le> int 0 + int y" using assms(3) by (rule correction_bounds(2))
  then have g: "g \<le> int y" by (simp add: correction_def g_def)
  show ?thesis unfolding c using assms(5) g assms(4) by (intro percentCeil_mono ratio_mono)
qed

section \<open>The calendar\<close>

lemma length_fillMissingHalfHours: "length (fillMissingHalfHours data) = 48"
  by (simp add: fillMissingHalfHours_def length_concat o_def sum_list_triv)

lemma validDate_previousDay:
  assumes "validDate k"
  shows "validDate (previousDay k)"
proof -
  obtain y m d where k: "k = (y, m, d)" by (cases k)
  have v: "1 \<le> m" "m \<le> 12" "1 \<le> d" "d \<le> daysInMonth y m"
    using assms by (simp_all add: k validDate_def)
  have dim: "1 \<le> daysInMonth y' m'" for y' m' by (simp add: daysInMonth_def)
  show ?thesis
  proof (cases "1 < d")
    case True
    then show ?thesis using v by (auto simp: k previousDay_def validDate_def)
  next
    case False
    show ?thesis
    proof (cases "1 < m")
      case True
      then show ?thesis using False v dim[of y "m - 1"]
        by (auto simp: k previousDay_def validDate_def)
    next
      case m: False
      show ?thesis using False m by (simp add: k previousDay_def validDate_def daysInMonth_def)
    qed
  qed
qed

lemma div_step:
  fixes y c :: int
  assumes "0 < c"
  shows "y div c - (y - 1) div c = (if y mod c = 0 then 1 else 0)"
proof -
  have e: "c * (y div c) + y mod c = y" by (rule mult_div_mod_eq)
  have r: "0 \<le> y mod c" "y mod c < c" using assms by simp_all
  show ?thesis
  proof (cases "y mod c = 0")
    case True
    have "c * (y div c - 1) = c * (y div c) - c" by (simp add: right_diff_distrib)
    then have "y - 1 = c * (y div c - 1) + (c - 1)" using e True by linarith
    moreover have "0 \<le> c - 1" "c - 1 < c" using assms by simp_all
    ultimately have "(y - 1) div c = y div c - 1" by (rule int_div_pos_eq)
    then show ?thesis using True by simp
  next
    case False
    then have r1: "0 \<le> y mod c - 1" using r(1) by linarith
    have "y - 1 = c * (y div c) + (y mod c - 1)" using e by linarith
    moreover have "y mod c - 1 < c" using r(2) by linarith
    ultimately have "(y - 1) div c = y div c" using r1 by (intro int_div_pos_eq)
    then show ?thesis using False by simp
  qed
qed

lemma leap_mod_100:
  fixes y :: int
  assumes "y mod 400 = 0"
  shows "y mod 100 = 0"
proof -
  have a: "(100::int) dvd 400" by simp
  have "400 dvd y" using assms by (simp only: mod_eq_0_iff_dvd)
  with a have "100 dvd y" by (rule dvd_trans)
  then show ?thesis by (simp only: mod_eq_0_iff_dvd)
qed

lemma leap_mod_4:
  fixes y :: int
  assumes "y mod 100 = 0"
  shows "y mod 4 = 0"
proof -
  have a: "(4::int) dvd 100" by simp
  have "100 dvd y" using assms by (simp only: mod_eq_0_iff_dvd)
  with a have "4 dvd y" by (rule dvd_trans)
  then show ?thesis by (simp only: mod_eq_0_iff_dvd)
qed

lemma leap_step: "leapDays y - leapDays (y - 1) = (if isLeapYear y then 1 else 0)"
proof -
  define p4 where "p4 = (y mod 4 = 0)"
  define p100 where "p100 = (y mod 100 = 0)"
  define p400 where "p400 = (y mod 400 = 0)"
  define a b c where "a = y div 4 - (y - 1) div 4" and "b = y div 100 - (y - 1) div 100"
    and "c = y div 400 - (y - 1) div 400"
  have a: "a = (if p4 then 1 else 0)" unfolding a_def p4_def by (rule div_step) simp
  have b: "b = (if p100 then 1 else 0)" unfolding b_def p100_def by (rule div_step) simp
  have c: "c = (if p400 then 1 else 0)" unfolding c_def p400_def by (rule div_step) simp
  have i: "p400 \<Longrightarrow> p100" "p100 \<Longrightarrow> p4"
    unfolding p4_def p100_def p400_def by (rule leap_mod_100, assumption) (rule leap_mod_4, assumption)
  have l: "isLeapYear y = (p4 \<and> (\<not> p100 \<or> p400))"
    unfolding isLeapYear_def p4_def p100_def p400_def ..
  have "leapDays y - leapDays (y - 1) = a - b + c"
    unfolding leapDays_def a_def b_def c_def by (simp only: algebra_simps)
  also have "\<dots> = (if isLeapYear y then 1 else 0)"
    unfolding l a b c using i by auto
  finally show ?thesis .
qed

lemma makeDay_previousDay:
  assumes "validDate k"
  shows "makeDay (previousDay k) = makeDay k - 1"
proof -
  obtain y m d where k: "k = (y, m, d)" by (cases k)
  have v: "1 \<le> m" "m \<le> 12" "1 \<le> d" using assms by (simp_all add: k validDate_def)
  show ?thesis
  proof (cases "1 < d")
    case True
    then show ?thesis by (simp add: k previousDay_def makeDay_def Let_def of_nat_diff)
  next
    case False
    then have d: "d = 1" using v(3) by simp
    have "m = 1 \<or> m = 2 \<or> m = 3 \<or> m = 4 \<or> m = 5 \<or> m = 6 \<or> m = 7 \<or> m = 8
      \<or> m = 9 \<or> m = 10 \<or> m = 11 \<or> m = 12"
      using v(1,2) by arith
    then consider "m = 1" | "m = 2" | "m = 3" | "m = 4" | "m = 5" | "m = 6" | "m = 7" | "m = 8"
      | "m = 9" | "m = 10" | "m = 11" | "m = 12"
      by blast
    then show ?thesis
    proof cases
      case 3
      have "leapDays y = leapDays (y - 1) + (if isLeapYear y then 1 else 0)"
        using leap_step[of y] by simp
      then show ?thesis
        by (simp add: k d 3 previousDay_def makeDay_def Let_def daysInMonth_def
            daysBeforeMonth_def)
    qed (simp_all add: k d previousDay_def makeDay_def Let_def daysInMonth_def daysBeforeMonth_def)
  qed
qed

lemma weekDay_range: "0 \<le> weekDay n" "weekDay n < 7"
  by (simp_all add: weekDay_def)

lemma getDay_east:
  assumes "0 \<le> utcOffset d" "utcOffset d < 1440"
  shows "getDay utcOffset d = calendarWeekDay d"
proof -
  have "(makeDay d * 1440 + utcOffset d) div 1440 = makeDay d"
    using assms by (intro int_div_pos_eq[of _ _ _ "utcOffset d"]) simp_all
  then show ?thesis by (simp only: getDay_def calendarWeekDay_def)
qed

lemma getDay_west:
  assumes "- 1440 \<le> utcOffset d" "utcOffset d < 0" "validDate d"
  shows "getDay utcOffset d = calendarWeekDay (previousDay d)"
proof -
  have "makeDay d * 1440 + utcOffset d = 1440 * (makeDay d - 1) + (utcOffset d + 1440)"
    by simp
  then have "(makeDay d * 1440 + utcOffset d) div 1440 = makeDay d - 1"
    using assms(1,2) by (intro int_div_pos_eq[of _ _ _ "utcOffset d + 1440"]) simp_all
  then show ?thesis by (simp only: getDay_def calendarWeekDay_def makeDay_previousDay[OF assms(3)])
qed

lemma calendarWeekDay_previousDay:
  assumes "validDate d"
  shows "int (calendarWeekDay (previousDay d)) = (int (calendarWeekDay d) + 6) mod 7"
proof -
  have "((makeDay d + 4) mod 7 + 6) mod 7 = (makeDay d + 4 + 6) mod 7"
    by (simp only: mod_add_left_eq)
  also have "\<dots> = (makeDay d + 3 + 7) mod 7" by (simp add: algebra_simps)
  also have "\<dots> = (makeDay d + 3) mod 7" by (simp only: mod_add_self2)
  finally have c: "((makeDay d + 4) mod 7 + 6) mod 7 = (makeDay d + 3) mod 7" .
  have "makeDay d - 1 + 4 = makeDay d + 3" by simp
  then have "(makeDay d - 1 + 4) mod 7 = ((makeDay d + 4) mod 7 + 6) mod 7"
    unfolding c by (rule arg_cong)
  then show ?thesis
    by (simp add: calendarWeekDay_def makeDay_previousDay[OF assms] weekDay_def)
qed

lemma dayBefore_plainZone: "dayBefore plainZone k = previousDay k"
  by (simp add: dayBefore_def plainZone_def)

section \<open>Reading the manual working hours\<close>

lemmas parse_eval = parseCustomWorkHours_def parseFloat_def unsignedDecimal_def isWhiteSpace_def
  isDigit_def digitsValue_def exponentPart_def js_sub_def js_gt_def to_double_Fin units_def
  hyphen_def plusSign_def point_def smallE_def capitalE_def

lemmas hour_eval = isWorkingHour_def STANDARD_WORK_HOURS_def earlyStart_def to_double_Fin
  js_ge_def js_le_def js_min_def js_max_def round64_eval

text \<open>White space before a number is skipped, the no-break space U+00A0 included.\<close>

lemma parseCustomWorkHours_no_break_space:
  "parseCustomWorkHours (160 # units ''9-18'') = parseCustomWorkHours (units ''9-18'')"
  by (simp add: parse_eval round64_eval)

lemma parseCustomWorkHours_early_start:
  "parseCustomWorkHours (units ''0.00000000000000001-24'') = Inr earlyStart"
  by (simp add: parse_eval earlyStart_def round64_eval)

section \<open>Claims about the 996 index\<close>

text \<open>
  C1. For 93 commits in normal hours, 7 in overtime hours, 100 on workdays and none at
  weekends, the formula of the specification gives the ratio
  \<open>ceil(round(7 + 93\<cdot>0/100) / 100 \<cdot> 100) = 7\<close> and the index \<open>21\<close>. The code divides
  and multiplies in binary64: \<open>7 / 100\<close> rounds to a value whose product with \<open>100\<close>
  rounds to \<open>7.000000000000001\<close>, so \<^verbatim>\<open>Math.ceil\<close> returns \<open>8\<close> and the index is \<open>24\<close>,
  one tier higher. The example of the claim (\<open>x = 0\<close>, \<open>y = 100\<close>, \<open>m = n = 100\<close>) does
  return the ratio \<open>50\<close> and the index \<open>150\<close>.
\<close>

theorem calculate996Index_seven_percent:
  "calculate996Index (workTimeData 93 7 100 0 hourList) =
     Inr \<lparr>index996 = Fin 24, index996Str = Acceptable, overTimeRadio = Fin 8\<rparr>
   \<and> spec_ratio 93 7 100 0 = 7
   \<and> calculate996Index (workTimeData 100 0 100 100 hourList) =
     Inr \<lparr>index996 = Fin 150, index996Str = Extreme, overTimeRadio = Fin 50\<rparr>
   \<and> spec_ratio 100 0 100 100 = 50"
proof -
  have "calculate996Index (workTimeData 93 7 100 0 hourList) =
     Inr \<lparr>index996 = Fin 24, index996Str = Acceptable, overTimeRadio = Fin 8\<rparr>"
    by (simp add: index_eval js_eval round64_eval)
  moreover have "spec_ratio 93 7 100 0 = 7"
    by (simp add: spec_ratio_def)
  moreover have "calculate996Index (workTimeData 100 0 100 100 hourList) =
     Inr \<lparr>index996 = Fin 150, index996Str = Extreme, overTimeRadio = Fin 50\<rparr>"
    by (simp add: index_eval js_eval round64_eval)
  moreover have "spec_ratio 100 0 100 100 = 50"
    by (simp add: spec_ratio_def)
  ultimately show ?thesis by blast
qed

text \<open>
  C6. With no commit at all (\<open>x = y = 0\<close> and \<open>m = n = 0\<close>) the divisions \<open>0 / 0\<close> of
  \<^verbatim>\<open>calculate996Index\<close> are not special-cased: the ratio and the index are both
  \<^verbatim>\<open>NaN\<close>, and since every comparison with \<^verbatim>\<open>NaN\<close> is false the description is the
  last one, the message of the highest tier.
\<close>

theorem calculate996Index_no_commits:
  "calculate996Index (workTimeData 0 0 0 0 hourList) =
     Inr \<lparr>index996 = NaN, index996Str = Extreme, overTimeRadio = NaN\<rparr>"
  by (simp add: index_eval js_eval round64_eval)

section \<open>The under-saturation branch\<close>

text \<open>
  What the branch computes when \<^verbatim>\<open>calculate996Index\<close> is called with an array of fewer than
  9 entries and the primary ratio is 0: with \<open>L\<close> entries the synthetic total is
  \<open>totalCount / L \<cdot> 9\<close>, and \<open>ceil(totalCount / synthetic \<cdot> 100) - 100\<close> comes out in binary64
  as \<open>ceil(100 \<cdot> L / 9) - 100\<close>, a negative number that is returned as it is; the index is
  three times it. The four counts are below \<open>2\<^sup>2\<^sup>4\<close>.
\<close>

lemma calculate996Index_under_saturation:
  assumes "y < 2 ^ 24" "x < 2 ^ 24" "m < 2 ^ 24" "n < 2 ^ 24"
  shows "\<exists>r. calculate996Index (workTimeData y x m n hourList) = Inr r \<and>
     (if primaryRadio (js_of_nat y) (js_of_nat x) (js_of_nat m) (js_of_nat n) = Fin 0
         \<and> length hourList < 9
      then overTimeRadio r = getUn996Radio hourList (js_add (js_of_nat y) (js_of_nat x))
         \<and> overTimeRadio r = Fin (of_int (\<lceil>100 * of_nat (length hourList) / (9 :: rat)\<rceil> - 100))
         \<and> js_lt (overTimeRadio r) (Fin 0)
         \<and> index996 r = js_mul (overTimeRadio r) (Fin 3)
         \<and> index996 r = Fin (of_int (3 * (\<lceil>100 * of_nat (length hourList) / (9 :: rat)\<rceil> - 100)))
      else overTimeRadio r = primaryRadio (js_of_nat y) (js_of_nat x) (js_of_nat m) (js_of_nat n)
         \<and> index996 r = js_mul (overTimeRadio r) (Fin 3))"
proof (cases "m + n = 0 \<or> x + y = 0")
  case True
  then have "primaryRadio (js_of_nat y) (js_of_nat x) (js_of_nat m) (js_of_nat n) = NaN"
    using assms primaryRadio_no_days[of y x] primaryRadio_no_commits[of m n] by auto
  then show ?thesis
    unfolding calculate996Index_undefined[OF assms True] by simp
next
  case False
  then have pos: "0 < m + n" "0 < x + y" by simp_all
  define p where "p = percentCeil (correction y x m n) (y + x)"
  define u where "u = \<lceil>100 * of_nat (length hourList) / (9 :: rat)\<rceil> - 100"
  have P: "primaryRadio (js_of_nat y) (js_of_nat x) (js_of_nat m) (js_of_nat n) = Fin (of_int p)"
    unfolding p_def using assms pos by (rule primaryRadio_value)
  have "y + x < 2 ^ 25" using assms(1,2) by simp
  moreover have "(2::nat) ^ 25 \<le> 2 ^ 53" by simp
  ultimately have "y + x < 2 ^ 53" by linarith
  then have t: "js_add (js_of_nat y) (js_of_nat x) = Fin (of_nat (y + x))"
    unfolding js_of_nat_exact[OF pow24_small(1)[OF assms(1)]]
        js_of_nat_exact[OF pow24_small(1)[OF assms(2)]] by (rule js_add_nat)
  have t25: "y + x < 2 ^ 25" "0 < y + x" using assms(1,2) pos(2) by auto
  have c0: "0 \<le> correction y x m n" using correction_bounds(1)[OF pos(1), of x y] by simp
  have ct: "correction y x m n \<le> int (y + x)" using correction_bounds(2)[OF pos(1), of y x] by simp
  have pr: "\<bar>p\<bar> \<le> 100" unfolding p_def using percentCeil_le[OF c0 ct t25(2)] by simp
  have E: "calculate996Index (workTimeData y x m n hourList) =
      (let r = (if p = 0 \<and> length hourList < 9 then u else p)
       in Inr \<lparr>index996 = Fin (of_int (3 * r)),
                index996Str = generateDescription (Fin (of_int (3 * r))),
                overTimeRadio = Fin (of_int r)\<rparr>)"
    unfolding p_def u_def using calculate996Index_defined[OF assms pos, of hourList]
    by (simp only: Let_def)
  show ?thesis
  proof (cases "p = 0 \<and> length hourList < 9")
    case True
    then have L: "length hourList < 9" by simp
    have U: "getUn996Radio hourList (Fin (of_nat (y + x))) = Fin (of_int u)"
      unfolding u_def using t25 L by (intro getUn996Radio_value) simp_all
    have un: "u \<le> - 11" "- 100 \<le> u" unfolding u_def using under_saturation_negative[OF L] by simp_all
    then have ua: "\<bar>u\<bar> \<le> 100" by linarith
    have neg: "(of_int u :: rat) < 0" using un(1) by simp
    have m3: "js_mul (Fin (of_int u)) (Fin 3) = Fin (of_int (3 * u))" using ua by (rule js_mul_three)
    show ?thesis
      unfolding E P t Let_def u_def[symmetric] using True U neg m3
      by (simp del: of_nat_add of_int_mult js_mul.simps)
  next
    case False
    have m3: "js_mul (Fin (of_int p)) (Fin 3) = Fin (of_int (3 * p))" using pr by (rule js_mul_three)
    show ?thesis
      unfolding E P t Let_def u_def[symmetric] using False m3
      by (auto simp del: of_nat_add of_int_mult js_mul.simps)
  qed
qed

text \<open>
  C2. The test of the branch is \<^verbatim>\<open>hourData.length < 9\<close>, and the \<^verbatim>\<open>hourData\<close> of the index
  is what \<^verbatim>\<open>getCommitsByHour\<close> returns: \<^verbatim>\<open>fillMissingHalfHours\<close> has put a zero in every half
  hour without a commit, so the array has 48 entries whatever the commits are. The test
  is never true and the ratio returned is always the primary one. For a repository whose
  ten commits were all made between 9:00 and 9:29 on workdays, one bucket has activity
  and the primary ratio is 0, the case the under-saturation ratio is meant for; the
  ratio returned is 0 and the index 0, not a negative number.
\<close>

theorem calculate996Index_zero_filled:
  "length (fillMissingHalfHours data) = 48
   \<and> (\<exists>r. calculate996Index (workTimeData y x m n (fillMissingHalfHours data)) = Inr r
          \<and> overTimeRadio r = primaryRadio (js_of_nat y) (js_of_nat x) (js_of_nat m) (js_of_nat n))
   \<and> activeBuckets quietMorning = 1
   \<and> primaryRadio (js_of_nat 10) (js_of_nat 0) (js_of_nat 10) (js_of_nat 0) = Fin 0
   \<and> calculate996Index (workTimeData 10 0 10 0 quietMorning) =
       Inr \<lparr>index996 = Fin 0, index996Str = VeryHealthy, overTimeRadio = Fin 0\<rparr>"
proof -
  have "\<exists>r. calculate996Index (workTimeData y x m n (fillMissingHalfHours data)) = Inr r
          \<and> overTimeRadio r = primaryRadio (js_of_nat y) (js_of_nat x) (js_of_nat m) (js_of_nat n)"
    by (simp add: calculate996Index_def workTimeData_def length_fillMissingHalfHours Let_def)
  moreover have "activeBuckets quietMorning = 1"
    by (simp add: activeBuckets_def quietMorning_def fillMissingHalfHours_def padStart2_def
        digitChar_def upt_rec)
  moreover have "calculate996Index (workTimeData 10 0 10 0 quietMorning) =
       Inr \<lparr>index996 = Fin 0, index996Str = VeryHealthy, overTimeRadio = Fin 0\<rparr>"
  proof -
    have p: "primaryRadio (js_of_nat 10) (Fin 0) (js_of_nat 10) (Fin 0) = Fin 0"
      using primaryRadio_idle by (simp add: js_zero)
    show ?thesis
      by (simp add: calculate996Index_def workTimeData_def quietMorning_def
          length_fillMissingHalfHours p Let_def js_zero generateDescription_def js_le_def)
  qed
  ultimately show ?thesis using length_fillMissingHalfHours primaryRadio_idle by blast
qed

section \<open>The monotonicity of the index\<close>

text \<open>
  C9. With the commits in normal hours \<open>y\<close>, on workdays \<open>m\<close> and at weekends \<open>n\<close> fixed,
  a larger count \<open>x\<close> of commits in overtime hours never gives a smaller index: the index
  for \<open>x'\<close> is not below the index for \<open>x \<le> x'\<close>, and when there is a commit and a day
  (so that neither index is \<^verbatim>\<open>NaN\<close>) it is at least the index for \<open>x\<close>. This holds for the
  value binary64 computes, and across the step from the under-saturation ratio to the
  primary one. The counts are below \<open>2\<^sup>2\<^sup>4\<close>.
\<close>

theorem calculate996Index_monotone:
  assumes "y < 2 ^ 24" "x < 2 ^ 24" "x' < 2 ^ 24" "m < 2 ^ 24" "n < 2 ^ 24" "x \<le> x'"
  shows "\<exists>r r'. calculate996Index (workTimeData y x m n hourList) = Inr r
           \<and> calculate996Index (workTimeData y x' m n hourList) = Inr r'
           \<and> \<not> js_lt (index996 r') (index996 r)
           \<and> (0 < m + n \<and> 0 < x + y \<longrightarrow> js_le (index996 r) (index996 r'))"
proof (cases "m + n = 0 \<or> x + y = 0")
  case True
  have E: "calculate996Index (workTimeData y x m n hourList)
         = Inr \<lparr>index996 = NaN, index996Str = Extreme, overTimeRadio = NaN\<rparr>"
    using assms(1,2,4,5) True by (rule calculate996Index_undefined)
  have "\<exists>r'. calculate996Index (workTimeData y x' m n hourList) = Inr r'"
  proof (cases "m + n = 0 \<or> x' + y = 0")
    case True
    show ?thesis unfolding calculate996Index_undefined[OF assms(1,3,4,5) True] by simp
  next
    case False
    then have d: "0 < m + n" "0 < x' + y" by simp_all
    show ?thesis unfolding calculate996Index_defined[OF assms(1,3,4,5) d] Let_def by simp
  qed
  then show ?thesis unfolding E using True by (auto simp: js_lt_NaN)
next
  case False
  then have pos: "0 < m + n" "0 < x + y" by simp_all
  then have pos': "0 < x' + y" using assms(6) by linarith
  define p where "p = percentCeil (correction y x m n) (y + x)"
  define p' where "p' = percentCeil (correction y x' m n) (y + x')"
  define u where "u = \<lceil>100 * of_nat (length hourList) / (9 :: rat)\<rceil> - 100"
  define v where "v = (if p = 0 \<and> length hourList < 9 then u else p)"
  define v' where "v' = (if p' = 0 \<and> length hourList < 9 then u else p')"
  have E: "calculate996Index (workTimeData y x m n hourList) =
        Inr \<lparr>index996 = Fin (of_int (3 * v)),
              index996Str = generateDescription (Fin (of_int (3 * v))),
              overTimeRadio = Fin (of_int v)\<rparr>"
    unfolding v_def p_def u_def using calculate996Index_defined[OF assms(1,2,4,5) pos, of hourList]
    by (simp only: Let_def)
  have E': "calculate996Index (workTimeData y x' m n hourList) =
        Inr \<lparr>index996 = Fin (of_int (3 * v')),
              index996Str = generateDescription (Fin (of_int (3 * v'))),
              overTimeRadio = Fin (of_int v')\<rparr>"
    unfolding v'_def p'_def u_def
    using calculate996Index_defined[OF assms(1,3,4,5) pos(1) pos', of hourList]
    by (simp only: Let_def)
  have pp: "p \<le> p'" unfolding p_def p'_def using assms(1,3) pos assms(6) by (rule radio_mono)
  have c0: "0 \<le> correction y x m n" using correction_bounds(1)[OF pos(1), of x y] by simp
  have ct: "correction y x m n \<le> int (y + x)" using correction_bounds(2)[OF pos(1), of y x] by simp
  have t0: "0 < y + x" using pos(2) by linarith
  have p0: "0 \<le> p" unfolding p_def using percentCeil_le(1)[OF c0 ct t0] .
  have un: "length hourList < 9 \<Longrightarrow> u \<le> - 11"
    unfolding u_def by (rule under_saturation_negative(1))
  have "v \<le> v'" unfolding v_def v'_def using pp p0 un by auto
  then have "(of_int (3 * v) :: rat) \<le> of_int (3 * v')" by (simp only: of_int_le_iff)
  then show ?thesis unfolding E E' by (auto simp: js_le_def)
qed

theorem calculate996Index_monotone_witness:
  "\<exists>r r'. calculate996Index (workTimeData 10 0 10 0 [\<lparr>time = ''09'', count = Fin 10\<rparr>]) = Inr r
      \<and> calculate996Index (workTimeData 10 5 10 0 [\<lparr>time = ''09'', count = Fin 10\<rparr>]) = Inr r'
      \<and> js_le (index996 r) (index996 r')"
proof -
  have b: "(10::nat) < 2 ^ 24" "(0::nat) < 2 ^ 24" "(5::nat) < 2 ^ 24" "(0::nat) \<le> 5" by simp_all
  show ?thesis
    using calculate996Index_monotone[OF b(1) b(2) b(3) b(1) b(2) b(4), of "[\<lparr>time = ''09'', count = Fin 10\<rparr>]"]
    by auto
qed

section \<open>Claims about the working hours\<close>

lemma isWorkingHour_exact:
  assumes "startHour d = Fin (of_int a / 2)" "endHour d = Fin (of_int b / 2)"
    and "0 \<le> a" "a \<le> 48" "0 \<le> b" "b \<le> 48" "\<bar>h\<bar> < 2 ^ 40"
  shows "isWorkingHour (Fin (of_int h)) d \<longleftrightarrow> a \<le> 2 * h \<and> 2 * h < min b (a + 18)"
proof -
  have h60: "\<bar>h * 60\<bar> < 2 ^ 53" using assms(7) by (simp add: abs_mult)
  have m1: "js_mul (Fin (of_int h)) (Fin 60) = Fin (of_int (h * 60))"
    using h60 by (simp add: to_double_int_value[of _ "h * 60"])
  have m2: "js_mul (Fin (of_int a / 2)) (Fin 60) = Fin (of_int (a * 30))"
    using assms(3,4) by (simp add: to_double_int_value[of _ "a * 30"])
  have ad: "js_add (Fin (of_int a / 2)) (Fin 9) = Fin (of_int (a + 18) / 2)"
    using assms(3,4) by (simp add: to_double_half_value[of _ "a + 18"])
  have mn: "js_min (Fin (of_int b / 2)) (Fin (of_int (a + 18) / 2)) = Fin (of_int (min b (a + 18)) / 2)"
    by (simp add: min_def)
  have e3: "of_int (min b (a + 18)) / 2 * (60::rat) = of_int (min b (a + 18) * 30)" by simp
  have "0 \<le> min b (a + 18)" "min b (a + 18) \<le> 48" using assms(3-6) by simp_all
  then have b3: "\<bar>min b (a + 18) * 30\<bar> < 2 ^ 53" by simp
  have m3: "js_mul (Fin (of_int (min b (a + 18)) / 2)) (Fin 60) = Fin (of_int (min b (a + 18) * 30))"
    by (simp only: js_mul.simps to_double_int_value[OF e3 b3])
  have mx: "js_max (Fin (of_int (a * 30))) (Fin (of_int (min b (a + 18) * 30)))
      = Fin (of_int (max (a * 30) (min b (a + 18) * 30)))"
    by (simp add: max_def)
  have "isWorkingHour (Fin (of_int h)) d \<longleftrightarrow>
      js_ge (Fin (of_int (h * 60))) (Fin (of_int (a * 30)))
      \<and> js_lt (Fin (of_int (h * 60))) (Fin (of_int (max (a * 30) (min b (a + 18) * 30))))"
    unfolding isWorkingHour_def Let_def STANDARD_WORK_HOURS_def assms(1,2)
    by (simp only: m1 m2 ad mn m3 mx)
  also have "\<dots> \<longleftrightarrow> a * 30 \<le> h * 60 \<and> h * 60 < max (a * 30) (min b (a + 18) * 30)"
    by (simp only: js_ge_Fin js_lt.simps of_int_le_iff of_int_less_iff)
  also have "\<dots> \<longleftrightarrow> a \<le> 2 * h \<and> 2 * h < min b (a + 18)"
    by (auto simp: max_def min_def)
  finally show ?thesis .
qed

text \<open>
  The detector gives its hours in half-hour steps (it divides a multiple of 30 minutes
  by 60), between 0 and 24. For such a result, with start \<open>a / 2\<close> and end \<open>b / 2\<close>, every
  step of \<^verbatim>\<open>isWorkingHour\<close> is exact: it accepts the whole hour \<open>h\<close> exactly when \<open>h\<close> lies
  in \<open>[start, min(end, start + 9))\<close>, and at most nine whole hours are working hours,
  however late the end is.
\<close>

lemma isWorkingHour_capped:
  assumes "startHour d = Fin (of_int a / 2)" "endHour d = Fin (of_int b / 2)"
    and "0 \<le> a" "a \<le> 48" "0 \<le> b" "b \<le> 48"
  shows "(\<forall>h. \<bar>h\<bar> < 2 ^ 40 \<longrightarrow>
            (isWorkingHour (Fin (of_int h)) d \<longleftrightarrow>
               of_int a / 2 \<le> (of_int h :: rat)
               \<and> (of_int h :: rat) < min (of_int b / 2) (of_int a / 2 + 9)))
         \<and> card {h. \<bar>h\<bar> < 2 ^ 40 \<and> isWorkingHour (Fin (of_int h)) d} \<le> 9"
proof (intro conjI allI impI)
  fix h :: int assume h: "\<bar>h\<bar> < 2 ^ 40"
  have "(of_int a / 2 \<le> (of_int h :: rat)) = (a \<le> 2 * h)"
  proof -
    have "(of_int a / 2 \<le> (of_int h :: rat)) = ((of_int a :: rat) \<le> of_int (2 * h))"
      by (simp add: field_simps)
    then show ?thesis by (simp only: of_int_le_iff)
  qed
  moreover have "((of_int h :: rat) < min (of_int b / 2) (of_int a / 2 + 9)) = (2 * h < min b (a + 18))"
  proof -
    have "((of_int h :: rat) < of_int b / 2) = ((of_int (2 * h) :: rat) < of_int b)"
      by (simp add: field_simps)
    moreover have "((of_int h :: rat) < of_int a / 2 + 9) = ((of_int (2 * h) :: rat) < of_int (a + 18))"
      by (simp add: field_simps)
    ultimately show ?thesis by (simp only: of_int_less_iff min_less_iff_conj)
  qed
  ultimately show "isWorkingHour (Fin (of_int h)) d \<longleftrightarrow>
      of_int a / 2 \<le> (of_int h :: rat) \<and> (of_int h :: rat) < min (of_int b / 2) (of_int a / 2 + 9)"
    using isWorkingHour_exact[OF assms h] by simp
next
  let ?lo = "(a + 1) div 2"
  have "{h. \<bar>h\<bar> < 2 ^ 40 \<and> isWorkingHour (Fin (of_int h)) d} \<subseteq> {?lo ..< ?lo + 9}"
  proof
    fix h assume "h \<in> {h. \<bar>h\<bar> < 2 ^ 40 \<and> isWorkingHour (Fin (of_int h)) d}"
    then have h: "\<bar>h\<bar> < 2 ^ 40" and w: "isWorkingHour (Fin (of_int h)) d" by simp_all
    from w isWorkingHour_exact[OF assms h] have "a \<le> 2 * h" "2 * h < a + 18" by simp_all
    then show "h \<in> {?lo ..< ?lo + 9}" by simp linarith
  qed
  then have "card {h. \<bar>h\<bar> < 2 ^ 40 \<and> isWorkingHour (Fin (of_int h)) d} \<le> card {?lo ..< ?lo + 9}"
    by (intro card_mono) simp_all
  then show "card {h. \<bar>h\<bar> < 2 ^ 40 \<and> isWorkingHour (Fin (of_int h)) d} \<le> 9" by simp
qed

text \<open>From 9:30 to 22:00 the hours 10 to 18 are working hours: 18 is the last one, 19 and
  9 are not.\<close>

lemma isWorkingHour_capped_late_shift:
  "isWorkingHour (Fin 18) lateShift \<and> \<not> isWorkingHour (Fin 19) lateShift
   \<and> \<not> isWorkingHour (Fin 9) lateShift
   \<and> card {h. \<bar>h\<bar> < 2 ^ 40 \<and> isWorkingHour (Fin (of_int h)) lateShift} \<le> 9"
proof -
  have s: "startHour lateShift = Fin (of_int 19 / 2)" and e: "endHour lateShift = Fin (of_int 44 / 2)"
    by (simp_all add: lateShift_def)
  note c = isWorkingHour_capped[OF s e]
  have all: "\<forall>h. \<bar>h\<bar> < 2 ^ 40 \<longrightarrow>
      (isWorkingHour (Fin (of_int h)) lateShift \<longleftrightarrow>
         of_int 19 / 2 \<le> (of_int h :: rat)
         \<and> (of_int h :: rat) < min (of_int 44 / 2) (of_int 19 / 2 + 9))"
    and cd: "card {h. \<bar>h\<bar> < 2 ^ 40 \<and> isWorkingHour (Fin (of_int h)) lateShift} \<le> 9"
    using c by simp_all
  have "isWorkingHour (Fin (of_int 18)) lateShift" using all[rule_format, of 18] by simp
  moreover have "\<not> isWorkingHour (Fin (of_int 19)) lateShift" using all[rule_format, of 19] by simp
  moreover have "\<not> isWorkingHour (Fin (of_int 9)) lateShift" using all[rule_format, of 9] by simp
  ultimately show ?thesis using cd by simp
qed

text \<open>
  C3. A manual range need not lie on half hours. With \<^verbatim>\<open>--hours 0.00000000000000001-24\<close>
  the day starts at \<open>s\<close>, the binary64 number nearest to \<open>10\<^sup>-\<^sup>1\<^sup>7\<close>, and ends at 24. The hour
  9 lies in \<open>[s, min(24, s + 9))\<close>, since \<open>s \<le> 9 < s + 9\<close>. But \<^verbatim>\<open>startHour + 9\<close> is rounded
  to 9 in binary64, so the capped end is 9 o'clock, \<^verbatim>\<open>540 < 540\<close> is false, and
  \<^verbatim>\<open>isWorkingHour\<close> rejects the hour 9: the hours accepted are 1 to 8, eight of them, where
  the interval holds the nine hours 1 to 9.
\<close>

theorem isWorkingHour_early_start:
  "parseCustomWorkHours (units ''0.00000000000000001-24'') = Inr earlyStart
   \<and> startHour earlyStart = Fin (round64 (1 / 10 ^ 17)) \<and> endHour earlyStart = Fin 24
   \<and> round64 (1 / 10 ^ 17) \<le> 9 \<and> (9 :: rat) < min 24 (round64 (1 / 10 ^ 17) + 9)
   \<and> \<not> isWorkingHour (Fin 9) earlyStart
   \<and> isWorkingHour (Fin 8) earlyStart \<and> isWorkingHour (Fin 1) earlyStart
   \<and> \<not> isWorkingHour (Fin 0) earlyStart"
proof -
  have "startHour earlyStart = Fin (round64 (1 / 10 ^ 17))" "endHour earlyStart = Fin 24"
    by (simp_all add: earlyStart_def)
  moreover have "round64 (1 / 10 ^ 17) \<le> 9" "(9 :: rat) < min 24 (round64 (1 / 10 ^ 17) + 9)"
    by (simp_all add: round64_eval)
  moreover have "\<not> isWorkingHour (Fin 9) earlyStart" by (simp add: hour_eval)
  moreover have "isWorkingHour (Fin 8) earlyStart" by (simp add: hour_eval)
  moreover have "isWorkingHour (Fin 1) earlyStart" by (simp add: hour_eval)
  moreover have "\<not> isWorkingHour (Fin 0) earlyStart" by (simp add: hour_eval)
  ultimately show ?thesis using parseCustomWorkHours_early_start by blast
qed

section \<open>Claims about the start-time detection\<close>

text \<open>
  C4, as the code has it. The samples are the earliest minutes of the days that pass
  the weekday and band filter, at most \<open>2^32\<close> of them (the longest array of JavaScript).
  With no sample the start range is 9:00 to 9:30. Otherwise \<^verbatim>\<open>calculateQuantile\<close> takes
  from the sorted samples the order statistics at the indices \<open>floor((n - 1) \<cdot> 0.1)\<close> and
  \<open>floor((n - 1) \<cdot> 0.2)\<close>, and nothing is interpolated: the start is the lower one rounded
  down to a multiple of 30 minutes, and the end is the upper one (or the start plus 30,
  if that is later) rounded down, at most 60 minutes after the start and at most 12:00.
\<close>

theorem detectStartRange_order_statistics:
  assumes "length dailyFirstCommits < 2 ^ 32"
  shows
    "let samples = map minutesFromMidnight (filterValidDailyCommits getUTCDay dailyFirstCommits) in
     if samples = [] then
       detectStartRange getUTCDay dailyFirstCommits = ((Fin 9, Fin (19 / 2)), DefaultMethod, 0)
     else
       (let lower = sort samples ! ((length samples - 1) div 10);
            upper = sort samples ! ((length samples - 1) div 5);
            start = lower div 30 * 30;
            end1 = min (max upper (start + 30) div 30 * 30) (min (start + 60) 720)
        in detectStartRange getUTCDay dailyFirstCommits =
             ((Fin (of_nat start / 60), Fin (of_nat end1 / 60)), QuantileWindow, length samples)
           \<and> 300 \<le> start \<and> start \<le> lower \<and> lower < start + 30
           \<and> start \<le> end1 \<and> end1 \<le> start + 60 \<and> end1 \<le> 720)"
proof -
  define samples where
    "samples = map minutesFromMidnight (filterValidDailyCommits getUTCDay dailyFirstCommits)"
  have nine: "js_mul (Fin 9) (Fin 60) = Fin (of_nat 540)"
    using js_mul_nat[of 9 60] by simp
  have "samples = [] \<Longrightarrow>
      detectStartRange getUTCDay dailyFirstCommits = ((Fin 9, Fin (19 / 2)), DefaultMethod, 0)"
  proof -
    assume e: "samples = []"
    have a: "js_add (Fin (of_nat 540)) (Fin 30) = Fin (of_nat 570)"
      using js_add_nat[of 540 30] by simp
    have "buildStartHourRange (Fin (of_nat 540)) (Fin (of_nat 570)) = (Fin 9, Fin (19 / 2))"
      using buildStartHourRange_nat[of 540 570] by (simp add: Let_def)
    moreover have f: "filterValidDailyCommits getUTCDay dailyFirstCommits = []"
      using e by (simp add: samples_def)
    ultimately show ?thesis
      unfolding detectStartRange_def Let_def f nine a by simp
  qed
  moreover have "samples \<noteq> [] \<Longrightarrow>
      (let lower = sort samples ! ((length samples - 1) div 10);
           upper = sort samples ! ((length samples - 1) div 5);
           start = lower div 30 * 30;
           end1 = min (max upper (start + 30) div 30 * 30) (min (start + 60) 720)
       in detectStartRange getUTCDay dailyFirstCommits =
            ((Fin (of_nat start / 60), Fin (of_nat end1 / 60)), QuantileWindow, length samples)
          \<and> 300 \<le> start \<and> start \<le> lower \<and> lower < start + 30
          \<and> start \<le> end1 \<and> end1 \<le> start + 60 \<and> end1 \<le> 720)"
  proof -
    assume ne: "samples \<noteq> []"
    define lower where "lower = sort samples ! ((length samples - 1) div 10)"
    define upper where "upper = sort samples ! ((length samples - 1) div 5)"
    define start where "start = lower div 30 * 30"
    define end1 where "end1 = min (max upper (start + 30) div 30 * 30) (min (start + 60) 720)"
    have len: "length samples < 2 ^ 32"
    proof -
      have "length samples \<le> length dailyFirstCommits"
        by (simp add: samples_def filterValidDailyCommits_def)
      then show ?thesis using assms by linarith
    qed
    have band: "\<forall>m \<in> set samples. 300 \<le> m \<and> m \<le> 720"
      unfolding samples_def using valid_samples by blast
    have small: "\<forall>m \<in> set samples. m < 2 ^ 53"
    proof
      fix m assume "m \<in> set samples"
      then have "m \<le> 720" using band by simp
      moreover have "(720::nat) < 2 ^ 53" by simp
      ultimately show "m < 2 ^ 53" by linarith
    qed
    have pos: "0 < length samples" using ne by simp
    have "(length samples - 1) div 10 < length (sort samples)"
      using pos by (simp add: le_less_trans [OF div_le_dividend])
    then have "lower \<in> set (sort samples)" unfolding lower_def by (rule nth_mem)
    then have lo: "300 \<le> lower" "lower \<le> 720" using band by simp_all
    have "(length samples - 1) div 5 < length (sort samples)"
      using pos by (simp add: le_less_trans [OF div_le_dividend])
    then have "upper \<in> set (sort samples)" unfolding upper_def by (rule nth_mem)
    then have up: "300 \<le> upper" "upper \<le> 720" using band by simp_all
    have q1: "calculateQuantile samples (to_double (1 / 10)) (Fin (of_nat 540)) = Fin (of_nat lower)"
      unfolding lower_def by (rule calculateQuantile_order_statistic(1)[OF ne len small])
    have "calculateQuantile samples (to_double (1 / 5)) (js_add (Fin (of_nat lower)) (Fin 60))
        = Fin (of_nat upper)"
      unfolding upper_def by (rule calculateQuantile_order_statistic(2)[OF ne len small])
    then have q2: "calculateQuantile samples (to_double (2 / 10)) (js_add (Fin (of_nat lower)) (Fin 60))
        = Fin (of_nat upper)" by simp
    have p40: "(720::nat) < 2 ^ 40" by simp
    have l40: "lower < 2 ^ 40" and u40: "upper < 2 ^ 40" using lo up p40 by linarith+
    have st: "start \<le> lower" "lower < start + 30" "300 \<le> start" "start \<le> 720"
    proof -
      show "start \<le> lower" unfolding start_def by simp
      show "lower < start + 30" unfolding start_def
        using mod_less_divisor[of 30 lower] div_mult_mod_eq[of lower 30] by linarith
      have "300 div 30 \<le> lower div 30" using lo(1) by (rule div_le_mono)
      then show "300 \<le> start" unfolding start_def by simp
      show "start \<le> 720" using \<open>start \<le> lower\<close> lo(2) by linarith
    qed
    have su: "start + 30 \<le> max upper (start + 30) div 30 * 30"
    proof -
      have "(start + 30) div 30 \<le> max upper (start + 30) div 30" by (intro div_le_mono) simp
      then have "(start + 30) div 30 * 30 \<le> max upper (start + 30) div 30 * 30" by simp
      moreover have "(start + 30) div 30 * 30 = start + 30" unfolding start_def by simp
      ultimately show ?thesis by simp
    qed
    have b: "buildStartHourRange (Fin (of_nat lower)) (Fin (of_nat upper)) =
        (Fin (of_nat start / 60), Fin (of_nat end1 / 60))"
    proof -
      have m1: "max 300 (min lower 720) = lower" "max 300 (min upper 720) = upper"
        using lo up by simp_all
      have m2: "min start (max upper (start + 30) div 30 * 30) = start" using su by simp
      have m3: "max (max upper (start + 30) div 30 * 30) (start + 30)
          = max upper (start + 30) div 30 * 30" using su by simp
      show ?thesis
        unfolding buildStartHourRange_nat[OF l40 u40] Let_def m1 start_def[symmetric] m2 m3
        by (simp add: end1_def min.assoc)
    qed
    have en: "start \<le> end1" "end1 \<le> start + 60" "end1 \<le> 720"
      using su st unfolding end1_def by simp_all
    have "0 < length samples" using ne by simp
    then have "detectStartRange getUTCDay dailyFirstCommits =
        ((Fin (of_nat start / 60), Fin (of_nat end1 / 60)), QuantileWindow, length samples)"
      unfolding detectStartRange_def samples_def[symmetric] Let_def nine q1 q2 b
      by (simp add: samples_def)
    then show ?thesis
      unfolding Let_def lower_def[symmetric] upper_def[symmetric] start_def[symmetric]
        end1_def[symmetric]
      using st en by simp
  qed
  ultimately show ?thesis unfolding Let_def samples_def[symmetric] by simp
qed

text \<open>Two working days, the earliest commits at 5:00 and at 12:00: the start range is 5:00
  to 5:30. With no valid day it is 9:00 to 9:30.\<close>

theorem detectStartRange_order_statistics_witness:
  "detectStartRange (\<lambda>d. 1)
     [\<lparr>date = (2024, 5, 6), minutesFromMidnight = 300\<rparr>,
      \<lparr>date = (2024, 5, 7), minutesFromMidnight = 720\<rparr>]
     = ((Fin 5, Fin (11 / 2)), QuantileWindow, 2)
   \<and> detectStartRange (\<lambda>d. 1) [] = ((Fin 9, Fin (19 / 2)), DefaultMethod, 0)"
proof -
  let ?two = "[\<lparr>date = (2024, 5, 6), minutesFromMidnight = 300\<rparr>,
               \<lparr>date = (2024, 5, 7), minutesFromMidnight = 720\<rparr>]"
  have l2: "length ?two < 2 ^ 32" and l0: "length ([] :: DailyFirstCommit list) < 2 ^ 32"
    by simp_all
  have "detectStartRange (\<lambda>d. 1) ?two = ((Fin 5, Fin (11 / 2)), QuantileWindow, 2)"
    using detectStartRange_order_statistics[OF l2, of "\<lambda>d. 1"]
    by (simp add: filterValidDailyCommits_alt Let_def)
  moreover have "detectStartRange (\<lambda>d. 1) [] = ((Fin 9, Fin (19 / 2)), DefaultMethod, 0)"
    using detectStartRange_order_statistics[OF l0, of "\<lambda>d. 1"]
    by (simp add: filterValidDailyCommits_alt Let_def)
  ultimately show ?thesis by blast
qed

lemma calculatePercentile_two_samples: "calculatePercentile (sort [300, 720]) (Fin 10) = Fin 342"
  by (simp add: calculatePercentile_def js_index_def js_of_nat_def js_sub_def to_double_Fin
      round64_eval)

lemma calculateQuantile_two_samples:
  "calculateQuantile [300, 720] (to_double (1 / 10)) (Fin 540) = Fin 300"
  using calculateQuantile_order_statistic(1)[of "[300, 720]" "Fin 540"] by simp

lemma buildStartHourRange_interpolated: "fst (buildStartHourRange (Fin 342) (Fin 384)) = Fin (11 / 2)"
  using buildStartHourRange_nat[of 342 384] by (simp add: Let_def)

lemma buildStartHourRange_lowest: "fst (buildStartHourRange (Fin 300) (Fin 300)) = Fin 5"
  using buildStartHourRange_nat[of 300 300] by (simp add: Let_def)

text \<open>The same two samples, 300 and 720 minutes. The tenth percentile with linear
  interpolation is 342 minutes, which would give the start 5:30; \<^verbatim>\<open>calculateQuantile\<close>
  returns the sample 300, and the start is 5:00.\<close>

theorem calculateQuantile_not_interpolated:
  "calculatePercentile (sort [300, 720]) (Fin 10) = Fin 342
   \<and> calculateQuantile [300, 720] (to_double (1 / 10)) (Fin 540) = Fin 300
   \<and> fst (buildStartHourRange (Fin 342) (Fin 384)) = Fin (11 / 2)
   \<and> fst (buildStartHourRange (Fin 300) (Fin 300)) = Fin 5"
  using calculatePercentile_two_samples calculateQuantile_two_samples
    buildStartHourRange_interpolated buildStartHourRange_lowest by blast

section \<open>Claims about the manual working hours\<close>

lemma parseCustomWorkHours_result:
  assumes "parseCustomWorkHours s = Inr d"
  shows "confidence d = Fin 100 \<and> detectionMethod d = Manual
    \<and> (\<exists>a b. startHour d = Fin a \<and> endHour d = Fin b
           \<and> 0 \<le> a \<and> a \<le> 23 \<and> 0 \<le> b \<and> b \<le> 24 \<and> a < b)"
proof -
  define startH where "startH = parseFloat (split_on hyphen s ! 0)"
  define endH where "endH = parseFloat (split_on hyphen s ! 1)"
  have ok: "\<not> (startH = NaN \<or> endH = NaN \<or> js_lt startH (Fin 0) \<or> js_gt startH (Fin 23)
              \<or> js_lt endH (Fin 0) \<or> js_gt endH (Fin 24))"
    and lt: "\<not> js_ge startH endH"
    and d: "d = \<lparr>startHour = startH, endHour = endH, isReliable = True, sampleCount = - 1,
                     detectionMethod = Manual, confidence = Fin 100,
                     startHourRange = Some (startH, js_min endH (js_add startH (Fin 1))),
                     endHourRange = Some (js_max startH (js_sub endH (Fin 1)), endH),
                     endDetectionMethod = Some ManualEnd\<rparr>"
    using assms unfolding parseCustomWorkHours_def Let_def startH_def endH_def
    by (auto split: if_splits)
  obtain a where a: "startH = Fin a" using ok by (cases startH) (auto simp: js_gt_def)
  obtain b where b: "endH = Fin b" using ok by (cases endH) (auto simp: js_gt_def)
  have "0 \<le> a" "a \<le> 23" "0 \<le> b" "b \<le> 24" "a < b"
    using ok lt unfolding a b by (auto simp: js_gt_def)
  then show ?thesis using a b by (simp add: d)
qed

text \<open>
  C5. Whenever \<^verbatim>\<open>parseCustomWorkHours\<close> returns, the confidence is 100, the method is
  manual, and the hours are numbers with \<open>0 \<le> start \<le> 23\<close>, \<open>0 \<le> end \<le> 24\<close> and
  \<open>start < end\<close>: a range out of these bounds throws. A malformed text does not always
  throw: \<^verbatim>\<open>parseFloat\<close> reads the longest numeric prefix and drops the rest, so
  \<^verbatim>\<open>9x-18\<close>, which is not of the documented form, is accepted as \<^verbatim>\<open>9-18\<close>.
\<close>

theorem parseCustomWorkHours_manual:
  "(\<forall>s d. parseCustomWorkHours s = Inr d \<longrightarrow>
      confidence d = Fin 100 \<and> detectionMethod d = Manual
      \<and> (\<exists>a b. startHour d = Fin a \<and> endHour d = Fin b
             \<and> 0 \<le> a \<and> a \<le> 23 \<and> 0 \<le> b \<and> b \<le> 24 \<and> a < b))
   \<and> \<not> wellFormedHours (units ''9x-18'')
   \<and> parseCustomWorkHours (units ''9x-18'') =
       Inr \<lparr>startHour = Fin 9, endHour = Fin 18, isReliable = True, sampleCount = - 1,
            detectionMethod = Manual, confidence = Fin 100,
            startHourRange = Some (Fin 9, Fin 10), endHourRange = Some (Fin 17, Fin 18),
            endDetectionMethod = Some ManualEnd\<rparr>
   \<and> parseCustomWorkHours (units ''9x-18'') = parseCustomWorkHours (units ''9-18'')"
proof -
  have "\<not> wellFormedHours (units ''9x-18'')"
    by (simp add: wellFormedHours_def isDecimalNumber_def isDigit_def units_def hyphen_def point_def)
  moreover have "parseCustomWorkHours (units ''9x-18'') =
       Inr \<lparr>startHour = Fin 9, endHour = Fin 18, isReliable = True, sampleCount = - 1,
            detectionMethod = Manual, confidence = Fin 100,
            startHourRange = Some (Fin 9, Fin 10), endHourRange = Some (Fin 17, Fin 18),
            endDetectionMethod = Some ManualEnd\<rparr>"
    by (simp add: parse_eval round64_eval)
  moreover have "parseCustomWorkHours (units ''9-18'') =
       Inr \<lparr>startHour = Fin 9, endHour = Fin 18, isReliable = True, sampleCount = - 1,
            detectionMethod = Manual, confidence = Fin 100,
            startHourRange = Some (Fin 9, Fin 10), endHourRange = Some (Fin 17, Fin 18),
            endDetectionMethod = Some ManualEnd\<rparr>"
    by (simp add: parse_eval round64_eval)
  ultimately show ?thesis using parseCustomWorkHours_result by simp
qed

text \<open>The range \<^verbatim>\<open>9.5-22\<close> is accepted, with confidence 100; \<^verbatim>\<open>18-9\<close>, \<^verbatim>\<open>9-25\<close>, \<^verbatim>\<open>9\<close> and
  \<^verbatim>\<open>x-18\<close> throw.\<close>

theorem parseCustomWorkHours_manual_witness:
  "parseCustomWorkHours (units ''9.5-22'') = Inr lateShift
   \<and> confidence lateShift = Fin 100 \<and> detectionMethod lateShift = Manual
   \<and> parseCustomWorkHours (units ''18-9'') = Inl Error
   \<and> parseCustomWorkHours (units ''9-25'') = Inl Error
   \<and> parseCustomWorkHours (units ''9'') = Inl Error
   \<and> parseCustomWorkHours (units ''x-18'') = Inl Error"
proof -
  have p: "parseCustomWorkHours (units ''9.5-22'') = Inr lateShift"
    by (simp add: parse_eval round64_eval lateShift_def)
  from parseCustomWorkHours_manual p
  have "confidence lateShift = Fin 100 \<and> detectionMethod lateShift = Manual" by blast
  moreover have "parseCustomWorkHours (units ''18-9'') = Inl Error"
    by (simp add: parse_eval round64_eval)
  moreover have "parseCustomWorkHours (units ''9-25'') = Inl Error"
    by (simp add: parse_eval round64_eval)
  moreover have "parseCustomWorkHours (units ''9'') = Inl Error"
    by (simp add: parse_eval round64_eval)
  moreover have "parseCustomWorkHours (units ''x-18'') = Inl Error"
    by (simp add: parse_eval round64_eval)
  ultimately show ?thesis using p by blast
qed

section \<open>Claims about weekend overtime\<close>

lemma weekendLoop_counts:
  "weekendLoop utcOffset holiday days acc =
     \<lparr>saturdayDays = saturdayDays acc
        + length (filter (\<lambda>item. holiday (date item) \<and> getDay utcOffset (date item) \<noteq> 0) days),
      sundayDays = sundayDays acc
        + length (filter (\<lambda>item. holiday (date item) \<and> getDay utcOffset (date item) = 0) days),
      casualFixDays = casualFixDays acc
        + length (filter (\<lambda>item. holiday (date item) \<and> fcard (hours item) < 3) days),
      realOvertimeDays = realOvertimeDays acc
        + length (filter (\<lambda>item. holiday (date item) \<and> 3 \<le> fcard (hours item)) days)\<rparr>"
proof (induction days arbitrary: acc)
  case Nil
  show ?case by simp
next
  case (Cons item rest)
  show ?case
    by (simp add: Cons.IH Let_def countSaturday_def countSunday_def REAL_OVERTIME_THRESHOLD_def)
qed

lemma weekendLoopBasic_counts:
  "weekendLoopBasic utcOffset days acc =
     \<lparr>saturdayDays = saturdayDays acc
        + length (filter (\<lambda>item. getDay utcOffset (date item) = 6) days),
      sundayDays = sundayDays acc
        + length (filter (\<lambda>item. getDay utcOffset (date item) = 0) days),
      casualFixDays = casualFixDays acc
        + length (filter (\<lambda>item. fallbackIsHoliday utcOffset (date item)
                                \<and> fcard (hours item) < 3) days),
      realOvertimeDays = realOvertimeDays acc
        + length (filter (\<lambda>item. fallbackIsHoliday utcOffset (date item)
                                \<and> 3 \<le> fcard (hours item)) days)\<rparr>"
proof (induction days arbitrary: acc)
  case Nil
  show ?case by simp
next
  case (Cons item rest)
  show ?case
    by (simp add: Cons.IH Let_def countSaturday_def countSunday_def REAL_OVERTIME_THRESHOLD_def
        fallbackIsHoliday_def)
qed

text \<open>At or east of Greenwich the midnight of UTC falls on the same date of the local
  clock, and the holiday check is the check of the calendar.\<close>

lemma isHoliday_east:
  assumes "0 \<le> utcOffset d" "utcOffset d < 1440"
  shows "isHoliday utcOffset enabled calendar d = nonWorkday enabled calendar d"
    and "fallbackIsHoliday utcOffset d = (calendarWeekDay d = 0 \<or> calendarWeekDay d = 6)"
  by (simp_all add: isHoliday_def nonWorkday_def fallbackIsHoliday_def
      getDay_east[of utcOffset d, OF assms] Let_def split: option.splits)

text \<open>
  C7, as the code has it. Every day the holiday check accepts is counted once as a real
  overtime day (three distinct active hours or more) or as a quick-fix day (fewer), and
  once in a day tally. There are two day tallies, not three. On a machine whose zone is
  at or east of Greenwich, the Sunday tally counts the non-workdays that fall on a Sunday
  and the Saturday tally counts every other non-workday, the Saturdays and the holidays
  on a weekday together. When the calendar cannot be built, the days counted are the
  Saturdays and Sundays. The dates are dates of the calendar, as git prints them.
\<close>

theorem calculateWeekendOvertime_tallies:
  assumes "\<forall>item \<in> set days.
             validDate (date item) \<and> 0 \<le> utcOffset (date item) \<and> utcOffset (date item) < 1440"
  shows
  "calculateWeekendOvertime utcOffset (Some calendar) days enableHolidayMode =
     \<lparr>saturdayDays = length (filter (\<lambda>item. nonWorkday enableHolidayMode calendar (date item)
                                            \<and> calendarWeekDay (date item) \<noteq> 0) days),
      sundayDays = length (filter (\<lambda>item. nonWorkday enableHolidayMode calendar (date item)
                                          \<and> calendarWeekDay (date item) = 0) days),
      casualFixDays = length (filter (\<lambda>item. nonWorkday enableHolidayMode calendar (date item)
                                             \<and> fcard (hours item) < 3) days),
      realOvertimeDays = length (filter (\<lambda>item. nonWorkday enableHolidayMode calendar (date item)
                                                \<and> 3 \<le> fcard (hours item)) days)\<rparr>
   \<and> calculateWeekendOvertime utcOffset None days enableHolidayMode =
     \<lparr>saturdayDays = length (filter (\<lambda>item. calendarWeekDay (date item) = 6) days),
      sundayDays = length (filter (\<lambda>item. calendarWeekDay (date item) = 0) days),
      casualFixDays = length (filter (\<lambda>item. (calendarWeekDay (date item) = 0
                                                \<or> calendarWeekDay (date item) = 6)
                                             \<and> fcard (hours item) < 3) days),
      realOvertimeDays = length (filter (\<lambda>item. (calendarWeekDay (date item) = 0
                                                   \<or> calendarWeekDay (date item) = 6)
                                                \<and> 3 \<le> fcard (hours item)) days)\<rparr>"
proof -
  have e: "getDay utcOffset (date item) = calendarWeekDay (date item)"
    and h: "isHoliday utcOffset enableHolidayMode calendar (date item)
            = nonWorkday enableHolidayMode calendar (date item)"
    and f: "fallbackIsHoliday utcOffset (date item)
            = (calendarWeekDay (date item) = 0 \<or> calendarWeekDay (date item) = 6)"
    if "item \<in> set days" for item
    using assms that by (simp_all add: getDay_east isHoliday_east)
  have 1: "filter (\<lambda>item. isHoliday utcOffset enableHolidayMode calendar (date item)
                          \<and> getDay utcOffset (date item) \<noteq> 0) days
         = filter (\<lambda>item. nonWorkday enableHolidayMode calendar (date item)
                          \<and> calendarWeekDay (date item) \<noteq> 0) days"
    by (rule filter_cong) (simp_all add: e h)
  have 2: "filter (\<lambda>item. isHoliday utcOffset enableHolidayMode calendar (date item)
                          \<and> getDay utcOffset (date item) = 0) days
         = filter (\<lambda>item. nonWorkday enableHolidayMode calendar (date item)
                          \<and> calendarWeekDay (date item) = 0) days"
    by (rule filter_cong) (simp_all add: e h)
  have 3: "filter (\<lambda>item. isHoliday utcOffset enableHolidayMode calendar (date item)
                          \<and> fcard (hours item) < 3) days
         = filter (\<lambda>item. nonWorkday enableHolidayMode calendar (date item)
                          \<and> fcard (hours item) < 3) days"
    by (rule filter_cong) (simp_all add: h)
  have 4: "filter (\<lambda>item. isHoliday utcOffset enableHolidayMode calendar (date item)
                          \<and> 3 \<le> fcard (hours item)) days
         = filter (\<lambda>item. nonWorkday enableHolidayMode calendar (date item)
                          \<and> 3 \<le> fcard (hours item)) days"
    by (rule filter_cong) (simp_all add: h)
  have 5: "filter (\<lambda>item. getDay utcOffset (date item) = 6) days
         = filter (\<lambda>item. calendarWeekDay (date item) = 6) days"
    by (rule filter_cong) (simp_all add: e)
  have 6: "filter (\<lambda>item. getDay utcOffset (date item) = 0) days
         = filter (\<lambda>item. calendarWeekDay (date item) = 0) days"
    by (rule filter_cong) (simp_all add: e)
  have 7: "filter (\<lambda>item. fallbackIsHoliday utcOffset (date item) \<and> fcard (hours item) < 3) days
         = filter (\<lambda>item. (calendarWeekDay (date item) = 0 \<or> calendarWeekDay (date item) = 6)
                          \<and> fcard (hours item) < 3) days"
    by (rule filter_cong) (simp_all add: f)
  have 8: "filter (\<lambda>item. fallbackIsHoliday utcOffset (date item) \<and> 3 \<le> fcard (hours item)) days
         = filter (\<lambda>item. (calendarWeekDay (date item) = 0 \<or> calendarWeekDay (date item) = 6)
                          \<and> 3 \<le> fcard (hours item)) days"
    by (rule filter_cong) (simp_all add: f)
  show ?thesis
    unfolding calculateWeekendOvertime_def calculateWeekendOvertimeBasic_def option.case
      weekendLoop_counts weekendLoopBasic_counts 1 2 3 4 5 6 7 8
    by (simp add: noDays_def)
qed

lemmas calendar_eval = calendarWeekDay_def weekDay_def makeDay_def leapDays_def
  daysBeforeMonth_def validDate_def daysInMonth_def isLeapYear_def nonWorkday_def Let_def

text \<open>Example D of the specification, in the zone of China (eight hours ahead of UTC): the
  4th of May 2024, a Saturday with two distinct hours, is a quick-fix day, and the 5th, a
  Sunday with three, is a real overtime day.\<close>

theorem calculateWeekendOvertime_tallies_witness:
  "calculateWeekendOvertime (\<lambda>d. 480) (Some (\<lambda>d. None))
     [\<lparr>date = (2024, 5, 4), hours = {|10, 11|}\<rparr>, \<lparr>date = (2024, 5, 5), hours = {|9, 14, 20|}\<rparr>]
     True =
   \<lparr>saturdayDays = 1, sundayDays = 1, casualFixDays = 1, realOvertimeDays = 1\<rparr>"
proof -
  have h: "\<forall>item \<in> set [\<lparr>date = (2024, 5, 4), hours = {|10, 11|}\<rparr>,
                           \<lparr>date = (2024, 5, 5), hours = {|9::nat, 14, 20|}\<rparr>].
             validDate (date item) \<and> 0 \<le> (\<lambda>d. 480 :: int) (date item)
             \<and> (\<lambda>d. 480 :: int) (date item) < 1440"
    by (simp add: calendar_eval)
  show ?thesis
    by (simp add: calculateWeekendOvertime_tallies [OF h, THEN conjunct1] calendar_eval
        fcard_finsert_if fcard_fempty)
qed

text \<open>The first of May 2024, a Wednesday and a public holiday, with three active hours:
  it is counted in the Saturday tally, though no non-workday of the list is a Saturday.\<close>

theorem calculateWeekendOvertime_weekday_holiday:
  "calculateWeekendOvertime (\<lambda>d. 480) (Some (\<lambda>d. Some True))
     [\<lparr>date = (2024, 5, 1), hours = {|9, 10, 11|}\<rparr>] True =
   \<lparr>saturdayDays = 1, sundayDays = 0, casualFixDays = 0, realOvertimeDays = 1\<rparr>
   \<and> calendarWeekDay (2024, 5, 1) = 3
   \<and> holidaySaturdays True (\<lambda>d. Some True)
     [\<lparr>date = (2024, 5, 1), hours = {|9, 10, 11|}\<rparr>] = 0"
  by (simp add: calculateWeekendOvertime_def noDays_def isHoliday_def countSaturday_def
      REAL_OVERTIME_THRESHOLD_def holidaySaturdays_def fcard_finsert_if fcard_fempty
      getDay_def calendar_eval)

text \<open>West of Greenwich the midnight of UTC falls on the evening before of the local
  clock, and \<^verbatim>\<open>getDay\<close> gives the day before the date. In New York (five hours behind UTC)
  the Saturday of Example D is read as a Friday, which the fallback check does not count,
  and the Sunday as a Saturday.\<close>

lemma calculateWeekendOvertime_west:
  "calculateWeekendOvertime (\<lambda>d. - 300) (Some (\<lambda>d. None))
     [\<lparr>date = (2024, 5, 4), hours = {|10, 11|}\<rparr>, \<lparr>date = (2024, 5, 5), hours = {|9, 14, 20|}\<rparr>]
     True =
   \<lparr>saturdayDays = 1, sundayDays = 0, casualFixDays = 0, realOvertimeDays = 1\<rparr>"
  by (simp add: calculateWeekendOvertime_def noDays_def isHoliday_def fallbackIsHoliday_def
      countSaturday_def countSunday_def REAL_OVERTIME_THRESHOLD_def fcard_finsert_if fcard_fempty
      getDay_def calendar_eval)

section \<open>Claims about the project classifier\<close>

text \<open>
  C8. With 50 contributors or more, whatever the regularity, the weekend ratio and the
  moonlighting flag are, \<^verbatim>\<open>makeDecision\<close> returns the open-source type at once, with
  the confidence \<open>min(95, 70 + floor(count / 10))\<close>; for 60 contributors this is 76.
  The count is a whole number that binary64 holds exactly (below \<open>2^53\<close>).
\<close>

theorem makeDecision_many_contributors:
  assumes "50 \<le> c" "c < 2 ^ 53"
  shows "makeDecision regularity weekend moonlighting (js_of_nat c) =
           \<lparr>projectType = OPEN_SOURCE,
            decisionConfidence = Fin (of_nat (min 95 (70 + c div 10))),
            reasoning = [ManyContributors]\<rparr>"
proof -
  have c: "js_of_nat c = Fin (of_nat c)" using assms(2) by (rule js_of_nat_exact)
  have "js_floor (js_div (Fin (of_nat c)) (Fin (of_nat 10))) = Fin (of_nat (c div 10))"
    using assms(2) by (intro js_floor_div_nat) simp_all
  then have fl: "js_floor (js_div (Fin (of_nat c)) (Fin 10)) = Fin (of_nat (c div 10))"
    by (simp only: of_nat_numeral)
  have "c div 10 < 2 ^ 53" using assms(2) div_le_dividend[of c 10] by linarith
  then have "\<bar>70 + int (c div 10)\<bar> < 2 ^ 53 + 70" by simp
  have small: "int (c div 10) < 2 ^ 52" 
  proof -
    have "c div 10 < 2 ^ 52" using assms(2) by simp
    then show ?thesis by (metis of_nat_less_numeral_power_cancel_iff)
  qed
  have "js_add (Fin (of_int 70)) (Fin (of_int (int (c div 10)))) = Fin (of_int (70 + int (c div 10)))"
    using small by (intro js_add_int) simp
  then have add: "js_add (Fin 70) (Fin (of_nat (c div 10))) = Fin (of_nat (70 + c div 10))"
    by simp
  have "min (95::rat) (of_nat (70 + c div 10)) = of_nat (min 95 (70 + c div 10))"
    by (simp add: min_def)
  then have mn: "js_min (Fin 95) (Fin (of_nat (70 + c div 10))) = Fin (of_nat (min 95 (70 + c div 10)))"
    by (simp only: js_min_Fin)
  have ge: "js_ge (Fin (of_nat c)) (Fin 50)" using assms(1) by simp
  show ?thesis
    unfolding makeDecision_def c
    by (simp only: ge if_True fl add mn)
qed

theorem makeDecision_many_contributors_witness:
  "(50::nat) \<le> 60 \<and> (60::nat) < 2 ^ 53 \<and>
   makeDecision \<lparr>score = Fin 70\<rparr> \<lparr>ratio = Fin 0\<rparr> \<lparr>isActive = False\<rparr> (js_of_nat 60) =
     \<lparr>projectType = OPEN_SOURCE, decisionConfidence = Fin 76, reasoning = [ManyContributors]\<rparr>"
  using makeDecision_many_contributors[of 60 "\<lparr>score = Fin 70\<rparr>" "\<lparr>ratio = Fin 0\<rparr>" "\<lparr>isActive = False\<rparr>"]
  by simp

section \<open>Claims about the latest commit of each day\<close>

lemma latestLoop_distinct:
  "distinct (map fst m) \<Longrightarrow> distinct (map fst (latestLoop wall ps m))"
  by (induction ps arbitrary: m) (auto simp: distinct_update split: prod.splits option.splits)

lemma latestLoop_keeps:
  "map_of m k = Some v \<Longrightarrow> \<exists>v'. v \<le> v' \<and> map_of (latestLoop wall ps m) k = Some v'"
proof (induction ps arbitrary: m v)
  case Nil
  then show ?case by auto
next
  case (Cons p ps)
  obtain d e where eff: "effectiveCommit wall p = (d, e)" by (cases "effectiveCommit wall p")
  show ?case
  proof (cases "map_of m d")
    case None
    then have "k \<noteq> d" using Cons.prems by auto
    then have "map_of (AList.update d e m) k = Some v"
      using Cons.prems by (simp add: update_conv)
    from Cons.IH[OF this] show ?thesis using eff None by simp
  next
    case (Some current)
    show ?thesis
    proof (cases "current < e")
      case False
      then show ?thesis using Cons.IH[OF Cons.prems] eff Some by simp
    next
      case True
      show ?thesis
      proof (cases "k = d")
        case True
        have "map_of (AList.update d e m) k = Some e" using True by (simp add: update_conv)
        from Cons.IH[OF this] obtain v' where "e \<le> v'" "map_of (latestLoop wall ps (AList.update d e m)) k = Some v'"
          by blast
        moreover have "v \<le> e" using Cons.prems Some True \<open>current < e\<close> by simp
        ultimately show ?thesis using eff Some \<open>current < e\<close> by auto
      next
        case False
        then have "map_of (AList.update d e m) k = Some v"
          using Cons.prems by (simp add: update_conv)
        from Cons.IH[OF this] show ?thesis using eff Some True by simp
      qed
    qed
  qed
qed

lemma latestLoop_records:
  "p \<in> set ps \<Longrightarrow>
     \<exists>v. snd (effectiveCommit wall p) \<le> v \<and> map_of (latestLoop wall ps m) (fst (effectiveCommit wall p)) = Some v"
proof (induction ps arbitrary: m)
  case Nil
  then show ?case by simp
next
  case (Cons q ps)
  obtain d e where eff: "effectiveCommit wall q = (d, e)" by (cases "effectiveCommit wall q")
  show ?case
  proof (cases "p = q")
    case True
    show ?thesis
    proof (cases "map_of m d")
      case None
      have "map_of (AList.update d e m) d = Some e" by (simp add: update_conv)
      from latestLoop_keeps[OF this] show ?thesis using eff None True by simp
    next
      case (Some current)
      show ?thesis
      proof (cases "current < e")
        case True
        have "map_of (AList.update d e m) d = Some e" by (simp add: update_conv)
        from latestLoop_keeps[OF this] show ?thesis using eff Some True \<open>p = q\<close> by simp
      next
        case False
        from latestLoop_keeps[OF Some, of wall ps] obtain v' where
          "current \<le> v'" "map_of (latestLoop wall ps m) d = Some v'" by blast
        then show ?thesis using eff Some False \<open>p = q\<close> by auto
      qed
    qed
  next
    case False
    then have "p \<in> set ps" using Cons.prems by simp
    from Cons.IH[OF this] show ?thesis
      using eff by (auto split: option.splits)
  qed
qed

lemma latestLoop_origin:
  "map_of (latestLoop wall ps m) k = Some v \<Longrightarrow>
     map_of m k = Some v \<or> (\<exists>p \<in> set ps. effectiveCommit wall p = (k, v))"
proof (induction ps arbitrary: m)
  case Nil
  then show ?case by simp
next
  case (Cons q ps)
  obtain d e where eff: "effectiveCommit wall q = (d, e)" by (cases "effectiveCommit wall q")
  show ?case
  proof (cases "map_of m d = None \<or> (\<exists>current. map_of m d = Some current \<and> current < e)")
    case True
    then have "map_of (latestLoop wall ps (AList.update d e m)) k = Some v"
      using Cons.prems eff by (auto split: option.splits)
    from Cons.IH[OF this] show ?thesis
      using eff by (auto simp: update_conv split: if_splits)
  next
    case False
    then have "map_of (latestLoop wall ps m) k = Some v"
      using Cons.prems eff by (auto split: option.splits)
    from Cons.IH[OF this] show ?thesis by auto
  qed
qed

lemma getDailyLatestCommits_set:
  "set (getDailyLatestCommits wall commits) =
     (\<lambda>(d, minutes). \<lparr>date = d, minutesFromMidnight = minutes\<rparr>) ` set (latestLoop wall commits [])"
  by (simp add: getDailyLatestCommits_def)

lemma getDailyLatestCommits_mem:
  "c \<in> set (getDailyLatestCommits wall commits) \<longleftrightarrow>
     map_of (latestLoop wall commits []) (date c) = Some (minutesFromMidnight c)"
proof -
  have d: "distinct (map fst (latestLoop wall commits []))" by (rule latestLoop_distinct) simp
  have "c \<in> set (getDailyLatestCommits wall commits) \<longleftrightarrow>
      (date c, minutesFromMidnight c) \<in> set (latestLoop wall commits [])"
    unfolding getDailyLatestCommits_set by (cases c) force
  then show ?thesis using d by simp
qed

text \<open>
  In a zone whose clock shows the midnight of the date of each commit and of the day
  before it, a commit made before 6 o'clock is recorded under the previous day of the
  calendar, the date one day earlier in the count of days, with its minutes since
  midnight plus 1440: the list returned has an entry of that earlier date, whose minutes
  are at least those, hence 1440 or more, outside the range 0 to 1439 the type documents.
  Every entry returned holds the minutes of one of the commits recorded under its date,
  and it is the latest of them.
\<close>

lemma getDailyLatestCommits_before_six:
  assumes "\<forall>p \<in> set commits.
             validDate (dateKey p) \<and> wall (dateKey p, 0) = (dateKey p, 0)
             \<and> wall (previousDay (dateKey p), 0) = (previousDay (dateKey p), 0)"
  shows
  "(\<forall>p \<in> set commits. hour p < 6 \<longrightarrow>
      (\<exists>c \<in> set (getDailyLatestCommits wall commits).
         date c = previousDay (dateKey p)
         \<and> validDate (date c) \<and> makeDay (date c) = makeDay (dateKey p) - 1
         \<and> hour p * 60 + minute p + 1440 \<le> minutesFromMidnight c
         \<and> 1440 \<le> minutesFromMidnight c))
   \<and> (\<forall>c \<in> set (getDailyLatestCommits wall commits).
        (\<exists>p \<in> set commits. effectiveCommit wall p = (date c, minutesFromMidnight c))
        \<and> (\<forall>p \<in> set commits. fst (effectiveCommit wall p) = date c
               \<longrightarrow> snd (effectiveCommit wall p) \<le> minutesFromMidnight c))"
proof (intro conjI ballI impI)
  fix p assume p: "p \<in> set commits" and h: "hour p < 6"
  have z: "validDate (dateKey p)" "wall (dateKey p, 0) = (dateKey p, 0)"
    "wall (previousDay (dateKey p), 0) = (previousDay (dateKey p), 0)"
    using assms p by simp_all
  have db: "dayBefore wall (dateKey p) = previousDay (dateKey p)"
    by (simp add: dayBefore_def z(2,3))
  have eff: "effectiveCommit wall p = (previousDay (dateKey p), hour p * 60 + minute p + 1440)"
    using h by (simp add: effectiveCommit_def db)
  from latestLoop_records[OF p, of wall "[]"] obtain v where
    v: "hour p * 60 + minute p + 1440 \<le> v"
       "map_of (latestLoop wall commits []) (previousDay (dateKey p)) = Some v"
    by (auto simp: eff)
  let ?c = "\<lparr>date = previousDay (dateKey p), minutesFromMidnight = v\<rparr>"
  have "?c \<in> set (getDailyLatestCommits wall commits)"
    using v(2) by (simp add: getDailyLatestCommits_mem)
  moreover have "date ?c = previousDay (dateKey p)" by simp
  moreover have "validDate (date ?c)" using validDate_previousDay[OF z(1)] by simp
  moreover have "makeDay (date ?c) = makeDay (dateKey p) - 1"
    using makeDay_previousDay[OF z(1)] by simp
  moreover have "hour p * 60 + minute p + 1440 \<le> minutesFromMidnight ?c" using v(1) by simp
  moreover have "1440 \<le> minutesFromMidnight ?c" using v(1) by simp
  ultimately show "\<exists>c \<in> set (getDailyLatestCommits wall commits).
         date c = previousDay (dateKey p)
         \<and> validDate (date c) \<and> makeDay (date c) = makeDay (dateKey p) - 1
         \<and> hour p * 60 + minute p + 1440 \<le> minutesFromMidnight c
         \<and> 1440 \<le> minutesFromMidnight c" by blast
next
  fix c assume "c \<in> set (getDailyLatestCommits wall commits)"
  then have "map_of (latestLoop wall commits []) (date c) = Some (minutesFromMidnight c)"
    by (simp add: getDailyLatestCommits_mem)
  from latestLoop_origin[OF this]
  show "\<exists>p \<in> set commits. effectiveCommit wall p = (date c, minutesFromMidnight c)" by simp
next
  fix c p assume c: "c \<in> set (getDailyLatestCommits wall commits)" and p: "p \<in> set commits"
    and e: "fst (effectiveCommit wall p) = date c"
  from c have m: "map_of (latestLoop wall commits []) (date c) = Some (minutesFromMidnight c)"
    by (simp add: getDailyLatestCommits_mem)
  from latestLoop_records[OF p, of wall "[]"] e m
  show "snd (effectiveCommit wall p) \<le> minutesFromMidnight c" by auto
qed

lemmas latest_eval = getDailyLatestCommits_def effectiveCommit_def dayBefore_def previousDay_def
  daysInMonth_def isLeapYear_def plainZone_def apia_def

text \<open>One commit on the first of March 2024 at 01:30, in a zone whose clock skips
  nothing: the list returned holds the 29th of February with 1530 minutes, a day on which
  there was no commit at all.\<close>

lemma getDailyLatestCommits_leap_day:
  "getDailyLatestCommits plainZone [\<lparr>dateKey = (2024, 3, 1), hour = 1, minute = 30\<rparr>] =
     [\<lparr>date = (2024, 2, 29), minutesFromMidnight = 1530\<rparr>]"
  by (simp add: latest_eval)

text \<open>
  C10. The day before is reached by \<^verbatim>\<open>setDate(getDate() - 1)\<close> on the local clock, and a
  local clock can skip a day. In Pacific/Apia there was no 30th of December 2011. A
  commit made there on the 31st at 01:00 is before 6 o'clock; the previous day of the
  calendar is the 30th (on the local calendar, the 29th). The local midnight of the 30th
  denotes the instant the clock showed the midnight of the 31st, so the date formatted is
  the 31st: the commit is recorded under its own date, with 1500 minutes. In a zone
  whose clock skips nothing the same commit is recorded under the 30th.
\<close>

theorem getDailyLatestCommits_skipped_day:
  "getDailyLatestCommits apia [\<lparr>dateKey = (2011, 12, 31), hour = 1, minute = 0\<rparr>] =
     [\<lparr>date = (2011, 12, 31), minutesFromMidnight = 1500\<rparr>]
   \<and> validDate (2011, 12, 31)
   \<and> previousDay (2011, 12, 31) = (2011, 12, 30)
   \<and> makeDay (2011, 12, 30) = makeDay (2011, 12, 31) - 1
   \<and> getDailyLatestCommits plainZone [\<lparr>dateKey = (2011, 12, 31), hour = 1, minute = 0\<rparr>] =
     [\<lparr>date = (2011, 12, 30), minutesFromMidnight = 1500\<rparr>]"
  by (simp add: latest_eval validDate_def makeDay_def leapDays_def daysBeforeMonth_def)

end
